theory Spec2Isabelle
  imports Main "HOL-Library.Sublist"
begin

section \<open>Strings of the client\<close>

text \<open>
  The client (the \<^verbatim>\<open>App\<close> component) works on JavaScript strings. They are
  modelled as \<^typ>\<open>string\<close>, one \<^typ>\<open>char\<close> per code unit, so the model covers
  texts whose code units lie in the range 0..255. The byte decoder
  (\<^verbatim>\<open>TextDecoder\<close>) belongs to the platform: the model starts from the decoded text
  that each read of the response body contributes.
\<close>

text \<open>
  \<^verbatim>\<open>s.split(sep)\<close> for a non-empty separator: the separator is searched from the
  left, occurrences do not overlap, and the result always has at least one element.
  For the empty separator JavaScript returns the code units one by one.
\<close>

fun split_on :: "string \<Rightarrow> string \<Rightarrow> string list" where
  "split_on sep [] = [[]]"
| "split_on sep (c # cs) =
     (if prefix sep (c # cs) then [] # split_on sep (drop (length sep - 1) cs)
      else (case split_on sep cs of
              [] \<Rightarrow> [[c]]
            | seg # segs \<Rightarrow> (c # seg) # segs))"

definition js_split :: "string \<Rightarrow> string \<Rightarrow> string list" where
  "js_split sep s = (if sep = [] then map (\<lambda>c. [c]) s else split_on sep s)"

text \<open>\<^verbatim>\<open>parts.join(sep)\<close> on an array of strings.\<close>

fun js_join :: "string \<Rightarrow> string list \<Rightarrow> string" where
  "js_join sep [] = []"
| "js_join sep [x] = x"
| "js_join sep (x # y # ys) = x @ sep @ js_join sep (y # ys)"

text \<open>
  White space as \<^verbatim>\<open>trim()\<close> and the regular expression class \<^verbatim>\<open>\s\<close> see it,
  within the code units 0..255: tab, line feed, vertical tab, form feed, carriage
  return, space and no-break space.
\<close>

definition is_space :: "char \<Rightarrow> bool" where
  "is_space c \<longleftrightarrow> c \<in> {CHR 0x09, CHR 0x0A, CHR 0x0B, CHR 0x0C, CHR 0x0D, CHR 0x20, CHR 0xA0}"

definition trim :: "string \<Rightarrow> string" where
  "trim s = rev (dropWhile is_space (rev (dropWhile is_space s)))"

text \<open>The frame delimiter \<^verbatim>\<open>'\n\n'\<close> and the line separator \<^verbatim>\<open>'\n'\<close>.\<close>

definition blank_line :: string where
  "blank_line = [CHR 0x0A, CHR 0x0A]"

definition newline :: string where
  "newline = [CHR 0x0A]"

section \<open>Parsed payloads\<close>

text \<open>
  The value \<^verbatim>\<open>JSON.parse\<close> returns. A number is kept as its literal, as the text
  spells it. An object is the list of its own properties, each key once.
\<close>

datatype json =
    JNull
  | JBool bool
  | JNumber string
  | JString string
  | JArray "json list"
  | JObject "(string \<times> json) list"

text \<open>
  \<^verbatim>\<open>payload.key\<close> for a payload other than \<^verbatim>\<open>null\<close>, with \<^term>\<open>None\<close> for
  \<^verbatim>\<open>undefined\<close>. The client reads the keys \<^verbatim>\<open>event\<close> and \<^verbatim>\<open>content\<close> only,
  which no prototype defines, so only an object has them.
\<close>

fun property :: "json \<Rightarrow> string \<Rightarrow> json option" where
  "property (JObject props) key = map_of props key"
| "property v key = None"

text \<open>
  Whether the number that a literal spells is zero as a double: all its digits are
  zero, or its value is at most 2 to the power -1075, half of the least positive
  double, and rounds to zero. The literal is a sign, the integer digits, a fraction
  and an exponent.
\<close>

definition is_digit :: "char \<Rightarrow> bool" where
  "is_digit c \<longleftrightarrow> 48 \<le> (of_char c :: nat) \<and> (of_char c :: nat) \<le> 57"

definition digits_value :: "string \<Rightarrow> nat" where
  "digits_value ds = foldl (\<lambda>n c. 10 * n + ((of_char c :: nat) - 48)) 0 ds"

definition number_is_zero :: "string \<Rightarrow> bool" where
  "number_is_zero literal =
     (let body = (if literal \<noteq> [] \<and> hd literal = CHR ''-'' then tl literal else literal);
          ints = takeWhile is_digit body;
          r1 = dropWhile is_digit body;
          dotted = (r1 \<noteq> [] \<and> hd r1 = CHR ''.'');
          frac = (if dotted then takeWhile is_digit (tl r1) else []);
          r2 = (if dotted then dropWhile is_digit (tl r1) else r1);
          r3 = (if r2 \<noteq> [] \<and> hd r2 \<in> {CHR ''e'', CHR ''E''} then tl r2 else []);
          signed = (r3 \<noteq> [] \<and> hd r3 \<in> {CHR ''+'', CHR ''-''});
          edigits = takeWhile is_digit (if signed then tl r3 else r3);
          exponent = (if r3 \<noteq> [] \<and> hd r3 = CHR ''-'' then - int (digits_value edigits)
                      else int (digits_value edigits));
          m = digits_value (ints @ frac);
          k = exponent - int (length frac)
      in m = 0 \<or> (k < 0 \<and> m * 2 ^ 1075 \<le> 10 ^ nat (- k)))"

text \<open>Truthiness, as the operator \<^verbatim>\<open>||\<close> tests it.\<close>

fun truthy :: "json \<Rightarrow> bool" where
  "truthy JNull = False"
| "truthy (JBool b) = b"
| "truthy (JNumber literal) = (\<not> number_is_zero literal)"
| "truthy (JString s) = (s \<noteq> [])"
| "truthy (JArray xs) = True"
| "truthy (JObject props) = True"

text \<open>
  Whether the conversion to a string that \<^verbatim>\<open>new Error(value)\<close> applies to its
  argument returns. An object with an own key \<^verbatim>\<open>toString\<close> hides the method of its
  prototype behind a value that cannot be called, and the conversion throws a
  \<^verbatim>\<open>TypeError\<close>; an array converts its elements, \<^verbatim>\<open>null\<close> apart, and joins them.
\<close>

fun convertible :: "json \<Rightarrow> bool" where
  "convertible (JObject props) = (map_of props ''toString'' = None)"
| "convertible (JArray xs) = list_all (\<lambda>x. x = JNull \<or> convertible x) xs"
| "convertible v = True"

section \<open>Messages, values thrown and the transport\<close>

text \<open>
  A message. \<^term>\<open>Text\<close> holds a string that the client or the stream supplies. The
  other constructors stand for strings that the engine words or computes and that
  the model does not spell out: the message of the \<^verbatim>\<open>SyntaxError\<close> that
  \<^verbatim>\<open>JSON.parse\<close> throws on the given text, the message of the \<^verbatim>\<open>TypeError\<close> for
  reading the given key of \<^verbatim>\<open>null\<close>, the message of the \<^verbatim>\<open>TypeError\<close> for a value
  without conversion to a string, and the conversion to a string of a value that is
  not a string.
\<close>

datatype notice =
    Text string
  | SyntaxErrorText string
  | NullPropertyText string
  | NotPrimitiveText
  | ConvertedText json

text \<open>
  An \<^verbatim>\<open>Error\<close> object with its \<^verbatim>\<open>name\<close> and its \<^verbatim>\<open>message\<close>. The transport
  rejects with such objects only, and \<^verbatim>\<open>processEvent\<close> hands on such objects only.
\<close>

datatype js_error = ErrorObject (name: string) (message: notice)

text \<open>
  What the body of the \<^verbatim>\<open>try\<close> block of \<^verbatim>\<open>processEvent\<close> may throw: an
  \<^verbatim>\<open>Error\<close> object, or a value that is not an instance of \<^verbatim>\<open>Error\<close>.
\<close>

datatype js_thrown = AnError js_error | NotAnError

text \<open>
  One \<^verbatim>\<open>await reader.read()\<close>: it resolves to the decoded text of the delivered
  value together with the \<^verbatim>\<open>done\<close> flag, or it rejects (an abort of the request
  rejects it with an error named \<^verbatim>\<open>AbortError\<close>).
\<close>

datatype read_result = Read string bool | ReadThrows js_error

text \<open>How the read loop of \<^verbatim>\<open>handleSubmit\<close> is left.\<close>

datatype loop_end = Finished | Raised js_error | Awaiting

section \<open>The read loop\<close>

text \<open>
  The \<^verbatim>\<open>for (const segment of segments)\<close> loop. The handler is \<^verbatim>\<open>processEvent\<close>
  with its callback; it returns the new state and either the thrown value or its
  boolean result. The loop has no \<^verbatim>\<open>break\<close>: after a handler returned true the
  remaining segments are still handled.
\<close>

fun for_segments ::
  "(string \<Rightarrow> 's \<Rightarrow> 's \<times> (js_error + bool)) \<Rightarrow> string list \<Rightarrow> bool \<Rightarrow> 's
    \<Rightarrow> 's \<times> (js_error + bool)" where
  "for_segments h [] doneSignal st = (st, Inr doneSignal)"
| "for_segments h (segment # segments) doneSignal st =
     (case h segment st of
        (st', Inl e) \<Rightarrow> (st', Inl e)
      | (st', Inr r) \<Rightarrow> for_segments h segments (if r then True else doneSignal) st')"

text \<open>
  The \<^verbatim>\<open>while (!doneSignal)\<close> loop over the reads that arrive. The result is the
  state, the value of \<^verbatim>\<open>buffer\<close> when the loop is left, and how it is left; when
  the reads so far are used up the loop is suspended in \<^verbatim>\<open>await reader.read()\<close>.
\<close>

fun read_loop ::
  "(string \<Rightarrow> 's \<Rightarrow> 's \<times> (js_error + bool)) \<Rightarrow> string \<Rightarrow> read_result list \<Rightarrow> 's
    \<Rightarrow> 's \<times> string \<times> loop_end" where
  "read_loop h buffer [] st = (st, buffer, Awaiting)"
| "read_loop h buffer (ReadThrows e # reads) st = (st, buffer, Raised e)"
| "read_loop h buffer (Read text done # reads) st =
     (let segments = js_split blank_line (buffer @ text);
          buffer1 = last segments
      in case for_segments h (butlast segments) False st of
           (st1, Inl e) \<Rightarrow> (st1, buffer1, Raised e)
         | (st1, Inr doneSignal) \<Rightarrow>
             if done then
               (if length (trim buffer1) > 0 then
                  (case h buffer1 st1 of
                     (st2, Inl e) \<Rightarrow> (st2, buffer1, Raised e)
                   | (st2, Inr r) \<Rightarrow> (st2, [], Finished))
                else (st1, [], Finished))
             else if doneSignal then (st1, buffer1, Finished)
             else read_loop h buffer1 reads st1)"

section \<open>The engine\<close>

text \<open>
  The part of the JavaScript engine the client calls and this repository does not
  contain: \<^verbatim>\<open>JSON.parse\<close>, which returns the parsed value or throws.
\<close>

record engine =
  JSON_parse :: "string \<Rightarrow> js_thrown + json"

section \<open>The event interpreter\<close>

text \<open>\<^verbatim>\<open>dataLine.replace(/^data:\s*/, '')\<close>\<close>

definition strip_data_prefix :: "string \<Rightarrow> string" where
  "strip_data_prefix dataLine =
     (if prefix ''data:'' dataLine then dropWhile is_space (drop 5 dataLine) else dataLine)"

text \<open>
  \<^verbatim>\<open>new Error(payload.content || 'The assistant ran into an issue.')\<close>: the error
  made, or the \<^verbatim>\<open>TypeError\<close> that the conversion of the argument throws.
\<close>

definition error_thrown :: "json option \<Rightarrow> js_error" where
  "error_thrown c =
     (case c of
        None \<Rightarrow> ErrorObject ''Error'' (Text ''The assistant ran into an issue.'')
      | Some v \<Rightarrow>
          if \<not> truthy v then ErrorObject ''Error'' (Text ''The assistant ran into an issue.'')
          else (case v of
                  JString t \<Rightarrow> ErrorObject ''Error'' (Text t)
                | _ \<Rightarrow> if convertible v then ErrorObject ''Error'' (ConvertedText v)
                       else ErrorObject ''TypeError'' NotPrimitiveText))"

text \<open>
  The body of the \<^verbatim>\<open>try\<close> block: it throws, returns true (\<^verbatim>\<open>done\<close>), or runs to
  its end, after which \<^verbatim>\<open>processEvent\<close> returns false. \<^term>\<open>string_value\<close> is the
  test \<^verbatim>\<open>typeof v === 'string'\<close> together with the string.
\<close>

fun string_value :: "json option \<Rightarrow> string option" where
  "string_value (Some (JString s)) = Some s"
| "string_value v = None"

definition try_body ::
  "engine \<Rightarrow> string \<Rightarrow> (string \<Rightarrow> 's \<Rightarrow> 's) \<Rightarrow> 's \<Rightarrow> 's \<times> (js_thrown + bool)" where
  "try_body E dataLine appendChunk st =
     (case JSON_parse E (strip_data_prefix dataLine) of
        Inl thrown \<Rightarrow> (st, Inl thrown)
      | Inr payload \<Rightarrow>
          if payload = JNull then
            (st, Inl (AnError (ErrorObject ''TypeError'' (NullPropertyText ''event''))))
          else
            let event = property payload ''event'';
                other =
                  (if event = Some (JString ''error'') then
                     (st, Inl (AnError (error_thrown (property payload ''content''))))
                   else if event = Some (JString ''done'') then (st, Inr True)
                   else (st, Inr False))
            in if event = Some (JString ''chunk'') then
                 (case string_value (property payload ''content'') of
                    Some text \<Rightarrow> (appendChunk text st, Inr False)
                  | None \<Rightarrow> other)
               else other)"

text \<open>
  The \<^verbatim>\<open>catch\<close> clause:
  \<^verbatim>\<open>throw error instanceof Error ? error : new Error('Unexpected response payload.')\<close>
\<close>

fun rethrow :: "js_thrown \<Rightarrow> js_error" where
  "rethrow (AnError e) = e"
| "rethrow NotAnError = ErrorObject ''Error'' (Text ''Unexpected response payload.'')"

text \<open>\<^verbatim>\<open>chunk.split('\n').find((line) => line.startsWith('data:'))\<close>\<close>

definition data_line :: "string \<Rightarrow> string option" where
  "data_line chunk = find (\<lambda>line. prefix ''data:'' line) (js_split newline chunk)"

definition processEvent ::
  "engine \<Rightarrow> string \<Rightarrow> (string \<Rightarrow> 's \<Rightarrow> 's) \<Rightarrow> 's \<Rightarrow> 's \<times> (js_error + bool)" where
  "processEvent E chunk appendChunk st =
     (case data_line chunk of
        None \<Rightarrow> (st, Inr False)
      | Some dataLine \<Rightarrow>
          (case try_body E dataLine appendChunk st of
             (st', Inl thrown) \<Rightarrow> (st', Inl (rethrow thrown))
           | (st', Inr r) \<Rightarrow> (st', Inr r)))"

section \<open>The transcript and the session\<close>

datatype Role = User | Assistant

record Message =
  msg_id :: string
  role :: Role
  content :: string
  skipContext :: "bool option"

definition initialMessages :: "Message list" where
  "initialMessages =
     [\<lparr>msg_id = ''welcome'', role = Assistant,
       content = ''Hello! I am your monochrome AI companion. Ask me anything - math, code, or general questions.'',
       skipContext = Some True\<rparr>]"

text \<open>The component state that the streaming logic reads and writes.\<close>

record App =
  messages :: "Message list"
  inputValue :: string
  isStreaming :: bool
  errorMessage :: "notice option"

text \<open>The state of a freshly mounted component: the initial values of its \<^verbatim>\<open>useState\<close> calls.\<close>

definition initialApp :: App where
  "initialApp = \<lparr>messages = initialMessages, inputValue = [], isStreaming = False, errorMessage = None\<rparr>"

text \<open>
  The callback \<^verbatim>\<open>appendChunk\<close> of one submission; \<open>assistant_id\<close> is
  \<^verbatim>\<open>assistantMessage.id\<close>.
\<close>

definition appendChunk :: "string \<Rightarrow> string \<Rightarrow> Message list \<Rightarrow> Message list" where
  "appendChunk assistant_id v current =
     map (\<lambda>m. if msg_id m = assistant_id then m\<lparr>content := content m @ v\<rparr> else m) current"

text \<open>
  The answer of \<^verbatim>\<open>fetch\<close>: it rejects, it has not resolved yet, or it resolves to
  a response with its \<^verbatim>\<open>ok\<close> flag and its body, given by the reads the body's
  reader delivers (\<^term>\<open>None\<close> for a response without body).
\<close>

datatype fetch_result =
    FetchThrows js_error
  | FetchPending
  | Response bool "read_result list option"

text \<open>The \<^verbatim>\<open>catch\<close> and the \<^verbatim>\<open>finally\<close> clause of \<^verbatim>\<open>handleSubmit\<close>.\<close>

definition catch_clause :: "js_error \<Rightarrow> App \<Rightarrow> App" where
  "catch_clause e s =
     (if name e = ''AbortError'' then s\<lparr>errorMessage := Some (Text ''Generation cancelled.'')\<rparr>
      else s\<lparr>errorMessage := Some (message e)\<rparr>)"

definition finally_clause :: "App \<Rightarrow> App" where
  "finally_clause s = s\<lparr>isStreaming := False\<rparr>"

text \<open>The body of the request: \<^verbatim>\<open>payload.messages\<close>.\<close>

definition request_messages :: "Message list \<Rightarrow> (Role \<times> string) list" where
  "request_messages ms =
     map (\<lambda>m. (role m, content m)) (filter (\<lambda>m. \<not> (skipContext m = Some True)) ms)"

text \<open>The two messages a submission appends, and \<^verbatim>\<open>processEvent\<close> as the loop calls it.\<close>

definition userMessage :: "string \<Rightarrow> string \<Rightarrow> Message" where
  "userMessage uuid trimmed = \<lparr>msg_id = uuid, role = User, content = trimmed, skipContext = None\<rparr>"

definition assistantMessage :: "string \<Rightarrow> Message" where
  "assistantMessage uuid = \<lparr>msg_id = uuid, role = Assistant, content = [], skipContext = None\<rparr>"

definition session_handler ::
  "engine \<Rightarrow> string \<Rightarrow> string \<Rightarrow> Message list \<Rightarrow> Message list \<times> (js_error + bool)" where
  "session_handler E assistant_id segment = processEvent E segment (appendChunk assistant_id)"

text \<open>
  One call of \<^verbatim>\<open>handleSubmit\<close>. The function is a closure of one render: \<open>seen\<close>
  holds the values of \<^verbatim>\<open>inputValue\<close>, \<^verbatim>\<open>isStreaming\<close> and \<^verbatim>\<open>messages\<close> of that
  render, which the guard and the request body read; \<open>s\<close> is the state of the
  component when the call is made, which the setters and their updater functions
  write. \<open>uuid1\<close> and \<open>uuid2\<close> are the two results of \<^verbatim>\<open>crypto.randomUUID()\<close>,
  \<open>answer\<close> is what the transport does with the request. The result is the request
  body sent, if any, and the state reached. The reference to the abort controller
  and the release of the reader's lock do not touch this state and are left out.
\<close>

definition handleSubmit_closure ::
  "engine \<Rightarrow> string \<Rightarrow> string \<Rightarrow> fetch_result \<Rightarrow> App \<Rightarrow> App \<Rightarrow> (Role \<times> string) list option \<times> App" where
  "handleSubmit_closure E uuid1 uuid2 answer seen s =
     (if trim (inputValue seen) = [] \<or> isStreaming seen then (None, s)
      else
        let trimmed = trim (inputValue seen);
            s1 = s\<lparr>messages := messages s @ [userMessage uuid1 trimmed, assistantMessage uuid2],
                   inputValue := [], errorMessage := None, isStreaming := True\<rparr>;
            payload = request_messages (messages seen @ [userMessage uuid1 trimmed])
        in (Some payload,
            (case answer of
               FetchThrows e \<Rightarrow> finally_clause (catch_clause e s1)
             | FetchPending \<Rightarrow> s1
             | Response ok body \<Rightarrow>
                 (case (ok, body) of
                    (True, Some reads) \<Rightarrow>
                      (case read_loop (session_handler E uuid2) [] reads (messages s1) of
                         (ms, buffer, Raised e) \<Rightarrow>
                           finally_clause (catch_clause e (s1\<lparr>messages := ms\<rparr>))
                       | (ms, buffer, Finished) \<Rightarrow> finally_clause (s1\<lparr>messages := ms\<rparr>)
                       | (ms, buffer, Awaiting) \<Rightarrow> s1\<lparr>messages := ms\<rparr>)
                  | _ \<Rightarrow>
                      finally_clause
                        (catch_clause
                           (ErrorObject ''Error'' (Text ''Unable to connect to the assistant.'')) s1)))))"

text \<open>
  The call made by the render that shows the current state: what the closure has
  seen is the state itself.
\<close>

definition handleSubmit ::
  "engine \<Rightarrow> string \<Rightarrow> string \<Rightarrow> fetch_result \<Rightarrow> App \<Rightarrow> (Role \<times> string) list option \<times> App" where
  "handleSubmit E uuid1 uuid2 answer s = handleSubmit_closure E uuid1 uuid2 answer s s"

text \<open>
  The chunk event a frame carries by the wire format: the content of a data line
  whose payload has the event \<^verbatim>\<open>chunk\<close> and a string as content.
\<close>

definition chunk_text :: "engine \<Rightarrow> string \<Rightarrow> string option" where
  "chunk_text E frame =
     (case data_line frame of
        None \<Rightarrow> None
      | Some dataLine \<Rightarrow>
          (case JSON_parse E (strip_data_prefix dataLine) of
             Inl thrown \<Rightarrow> None
           | Inr payload \<Rightarrow>
               if property payload ''event'' = Some (JString ''chunk'')
               then string_value (property payload ''content'') else None))"

section \<open>Observing the loop\<close>

text \<open>
  The handler, made to list every frame it is handed together with the state it is
  handed in. \<^term>\<open>handled\<close> is that list for a whole run of the loop: the frames the
  interpreter really sees, in order.
\<close>

definition traced ::
  "(string \<Rightarrow> 's \<Rightarrow> 's \<times> (js_error + bool)) \<Rightarrow> string \<Rightarrow> 's \<times> (string \<times> 's) list
    \<Rightarrow> ('s \<times> (string \<times> 's) list) \<times> (js_error + bool)" where
  "traced h segment p =
     (case h segment (fst p) of (st', r) \<Rightarrow> ((st', snd p @ [(segment, fst p)]), r))"

definition handled ::
  "(string \<Rightarrow> 's \<Rightarrow> 's \<times> (js_error + bool)) \<Rightarrow> read_result list \<Rightarrow> 's \<Rightarrow> (string \<times> 's) list" where
  "handled h reads st = snd (fst (read_loop (traced h) [] reads (st, [])))"

section \<open>The frame reassembler on its own\<close>

text \<open>
  The frames the loop hands over, observed by a handler that only records each
  frame and never asks to stop.
\<close>

definition record_frame :: "string \<Rightarrow> string list \<Rightarrow> string list \<times> (js_error + bool)" where
  "record_frame segment frames = (frames @ [segment], Inr False)"

text \<open>
  A stream delivered as the given chunks: one read per chunk, then the read that
  reports the end of the stream.
\<close>

definition deliver :: "string list \<Rightarrow> read_result list" where
  "deliver chunks = map (\<lambda>chunk. Read chunk False) chunks @ [Read [] True]"

definition frames_of :: "read_result list \<Rightarrow> string list" where
  "frames_of reads = fst (read_loop record_frame [] reads [])"

text \<open>The frame that the end of the stream emits from the carryover buffer.\<close>

definition final_frame :: "string \<Rightarrow> string list" where
  "final_frame b = (if length (trim b) > 0 then [b] else [])"

section \<open>A reference engine\<close>

text \<open>
  A concrete engine, for running the client on concrete streams: a parser of JSON
  texts by recursive descent (objects, arrays, strings with their escapes, numbers,
  the three literals, white space). The strings of the model hold the code units
  0..255, so a text with an escape that names a higher code unit has no value in
  the model; the parser treats it like a malformed text. The theorems below hold
  for every engine; this one supplies the concrete runs.
\<close>

definition json_space :: "char \<Rightarrow> bool" where
  "json_space c \<longleftrightarrow> c \<in> {CHR 0x20, CHR 0x09, CHR 0x0A, CHR 0x0D}"

definition hex_digit :: "char \<Rightarrow> nat option" where
  "hex_digit c =
     (let n = (of_char c :: nat) in
      if 48 \<le> n \<and> n \<le> 57 then Some (n - 48)
      else if 65 \<le> n \<and> n \<le> 70 then Some (n - 55)
      else if 97 \<le> n \<and> n \<le> 102 then Some (n - 87)
      else None)"

definition escape_char :: "char \<Rightarrow> char option" where
  "escape_char e =
     (if e = CHR 0x22 then Some (CHR 0x22)
      else if e = CHR 0x5C then Some (CHR 0x5C)
      else if e = CHR ''/'' then Some (CHR ''/'')
      else if e = CHR ''b'' then Some (CHR 0x08)
      else if e = CHR ''f'' then Some (CHR 0x0C)
      else if e = CHR ''n'' then Some (CHR 0x0A)
      else if e = CHR ''r'' then Some (CHR 0x0D)
      else if e = CHR ''t'' then Some (CHR 0x09)
      else None)"

fun parse_string :: "string \<Rightarrow> string \<Rightarrow> (string \<times> string) option" where
  "parse_string acc [] = None"
| "parse_string acc (c # cs) =
     (if c = CHR 0x22 then Some (rev acc, cs)
      else if c = CHR 0x5C then
        (case cs of
           [] \<Rightarrow> None
         | e # r \<Rightarrow>
             if e = CHR ''u'' then
               (case r of
                  h1 # h2 # h3 # h4 # r' \<Rightarrow>
                    (case (hex_digit h1, hex_digit h2, hex_digit h3, hex_digit h4) of
                       (Some a, Some b, Some c, Some d) \<Rightarrow>
                         if a = 0 \<and> b = 0 then parse_string (char_of (16 * c + d) # acc) r'
                         else None
                     | _ \<Rightarrow> None)
                | _ \<Rightarrow> None)
             else
               (case escape_char e of
                  None \<Rightarrow> None
                | Some x \<Rightarrow> parse_string (x # acc) r))
      else if (of_char c :: nat) < 32 then None
      else parse_string (c # acc) cs)"

text \<open>
  A number literal: an optional minus, the integer digits without a leading zero, an
  optional fraction and an optional exponent. The value is the literal as spelt.
\<close>

definition parse_number :: "string \<Rightarrow> (json \<times> string) option" where
  "parse_number s =
     (let minus = (if s \<noteq> [] \<and> hd s = CHR ''-'' then ''-'' else []);
          body = drop (length minus) s;
          ints = takeWhile is_digit body;
          r1 = dropWhile is_digit body;
          dotted = (r1 \<noteq> [] \<and> hd r1 = CHR ''.'');
          frac = (if dotted then takeWhile is_digit (tl r1) else []);
          r2 = (if dotted then dropWhile is_digit (tl r1) else r1);
          powered = (r2 \<noteq> [] \<and> hd r2 \<in> {CHR ''e'', CHR ''E''});
          r3 = (if powered then tl r2 else []);
          sign = (if r3 \<noteq> [] \<and> hd r3 \<in> {CHR ''+'', CHR ''-''} then [hd r3] else []);
          edigits = takeWhile is_digit (drop (length sign) r3);
          r4 = dropWhile is_digit (drop (length sign) r3)
      in if ints = [] \<or> (length ints > 1 \<and> hd ints = CHR ''0'') \<or> (dotted \<and> frac = [])
            \<or> (powered \<and> edigits = [])
         then None
         else Some (JNumber (minus @ ints @ (if dotted then ''.'' @ frac else [])
                       @ (if powered then [hd r2] @ sign @ edigits else [])),
                    if powered then r4 else r2))"

fun put_property :: "string \<Rightarrow> json \<Rightarrow> (string \<times> json) list \<Rightarrow> (string \<times> json) list" where
  "put_property k v [] = [(k, v)]"
| "put_property k v ((k', v') # props) =
     (if k = k' then (k, v) # props else (k', v') # put_property k v props)"

text \<open>
  The first argument bounds the depth of the descent: every call uses up one element
  of it, and a call that finds it empty reports an error.
\<close>

fun parse_value :: "string \<Rightarrow> string \<Rightarrow> (json \<times> string) option"
  and parse_elements :: "string \<Rightarrow> json list \<Rightarrow> string \<Rightarrow> (json \<times> string) option"
  and parse_members :: "string \<Rightarrow> (string \<times> json) list \<Rightarrow> string \<Rightarrow> (json \<times> string) option" where
  "parse_value [] s = None"
| "parse_value (f # fuel) s =
     (case dropWhile json_space s of
        [] \<Rightarrow> None
      | c # cs \<Rightarrow>
          if c = CHR ''{'' then
            (case dropWhile json_space cs of
               [] \<Rightarrow> None
             | d # ds \<Rightarrow> if d = CHR ''}'' then Some (JObject [], ds) else parse_members fuel [] cs)
          else if c = CHR ''['' then
            (case dropWhile json_space cs of
               [] \<Rightarrow> None
             | d # ds \<Rightarrow> if d = CHR '']'' then Some (JArray [], ds) else parse_elements fuel [] cs)
          else if c = CHR 0x22 then
            (case parse_string [] cs of
               None \<Rightarrow> None
             | Some (str, r) \<Rightarrow> Some (JString str, r))
          else if prefix ''true'' (c # cs) then Some (JBool True, drop 4 (c # cs))
          else if prefix ''false'' (c # cs) then Some (JBool False, drop 5 (c # cs))
          else if prefix ''null'' (c # cs) then Some (JNull, drop 4 (c # cs))
          else parse_number (c # cs))"
| "parse_elements [] acc s = None"
| "parse_elements (f # fuel) acc s =
     (case parse_value fuel s of
        None \<Rightarrow> None
      | Some (v, r) \<Rightarrow>
          (case dropWhile json_space r of
             [] \<Rightarrow> None
           | d # ds \<Rightarrow>
               if d = CHR '','' then parse_elements fuel (acc @ [v]) ds
               else if d = CHR '']'' then Some (JArray (acc @ [v]), ds)
               else None))"
| "parse_members [] acc s = None"
| "parse_members (f # fuel) acc s =
     (case dropWhile json_space s of
        [] \<Rightarrow> None
      | q # cs \<Rightarrow>
          if q \<noteq> CHR 0x22 then None
          else
            (case parse_string [] cs of
               None \<Rightarrow> None
             | Some (k, r) \<Rightarrow>
                 (case dropWhile json_space r of
                    [] \<Rightarrow> None
                  | d # ds \<Rightarrow>
                      if d \<noteq> CHR '':'' then None
                      else
                        (case parse_value fuel ds of
                           None \<Rightarrow> None
                         | Some (v, r') \<Rightarrow>
                             (case dropWhile json_space r' of
                                [] \<Rightarrow> None
                              | x # xs \<Rightarrow>
                                  if x = CHR '','' then parse_members fuel (put_property k v acc) xs
                                  else if x = CHR ''}'' then Some (JObject (put_property k v acc), xs)
                                  else None)))))"

definition reference_parse :: "string \<Rightarrow> js_thrown + json" where
  "reference_parse s =
     (case parse_value (s @ s @ ''..'') s of
        Some (v, r) \<Rightarrow>
          if dropWhile json_space r = [] then Inr v
          else Inl (AnError (ErrorObject ''SyntaxError'' (SyntaxErrorText s)))
      | None \<Rightarrow> Inl (AnError (ErrorObject ''SyntaxError'' (SyntaxErrorText s))))"

definition reference_engine :: engine where
  "reference_engine = \<lparr>JSON_parse = reference_parse\<rparr>"

section \<open>Splitting\<close>

lemma split_on_nonempty: "split_on sep s \<noteq> []"
  by (induction sep s rule: split_on.induct) (auto split: list.splits)

lemma split_on_short: "length s < length sep \<Longrightarrow> split_on sep s = [s]"
proof (induction s)
  case Nil
  then show ?case by simp
next
  case (Cons c cs)
  have np: "\<not> prefix sep (c # cs)"
    using Cons.prems by (auto dest: prefix_length_le)
  from Cons have "split_on sep cs = [cs]" by simp
  with np show ?case by simp
qed

lemma split_on_join:
  "sep \<noteq> [] \<Longrightarrow> js_join sep (split_on sep s) = s"
proof (induction sep s rule: split_on.induct)
  case (1 sep)
  then show ?case by simp
next
  case (2 sep c cs)
  show ?case
  proof (cases "prefix sep (c # cs)")
    case True
    then obtain r where r: "c # cs = sep @ r" by (auto simp: prefix_def)
    with "2.prems" have dr: "drop (length sep - 1) cs = r"
      by (cases sep) auto
    from "2.IH"(1)[OF True "2.prems"] dr
    have "js_join sep (split_on sep r) = r" by simp
    moreover obtain x xs where "split_on sep r = x # xs"
      using split_on_nonempty[of sep r] by (cases "split_on sep r") auto
    moreover have "split_on sep (c # cs) = [] # split_on sep r"
      using True dr by simp
    ultimately show ?thesis using r by simp
  next
    case False
    from "2.IH"(2)[OF False "2.prems"]
    have ih: "js_join sep (split_on sep cs) = cs" .
    obtain x xs where x: "split_on sep cs = x # xs"
      using split_on_nonempty[of sep cs] by (cases "split_on sep cs") auto
    with ih False show ?thesis by (cases xs) auto
  qed
qed

lemma split_on_single: "sep \<noteq> [] \<Longrightarrow> split_on sep s = [x] \<Longrightarrow> x = s"
  using split_on_join[of sep s] by simp

lemma split_on_append:
  "sep \<noteq> [] \<Longrightarrow>
   split_on sep (s @ t) = butlast (split_on sep s) @ split_on sep (last (split_on sep s) @ t)"
proof (induction sep s arbitrary: t rule: split_on.induct)
  case (1 sep)
  then show ?case by simp
next
  case (2 sep c cs)
  show ?case
  proof (cases "prefix sep (c # cs)")
    case True
    then have le: "length sep \<le> Suc (length cs)" by (auto dest: prefix_length_le)
    from True have pt: "prefix sep (c # cs @ t)"
      by (metis append_Cons prefix_prefix)
    have dr: "drop (length sep - 1) (cs @ t) = drop (length sep - 1) cs @ t"
      using le by simp
    have ne: "split_on sep (drop (length sep - 1) cs) \<noteq> []" by (rule split_on_nonempty)
    from "2.IH"(1)[OF True "2.prems", of t] True pt dr ne
    show ?thesis by simp
  next
    case False
    show ?thesis
    proof (cases "prefix sep (c # cs @ t)")
      case True
      have "length (c # cs) < length sep"
      proof (rule ccontr)
        assume "\<not> length (c # cs) < length sep"
        then have "length sep \<le> length (c # cs)" by simp
        with True have "prefix sep (c # cs)"
          by (metis append_Cons prefix_length_prefix prefixI)
        with False show False by simp
      qed
      then have "split_on sep (c # cs) = [c # cs]" by (rule split_on_short)
      then show ?thesis by simp
    next
      case nt: False
      obtain x xs where x: "split_on sep cs = x # xs"
        using split_on_nonempty[of sep cs] by (cases "split_on sep cs") auto
      have ih: "split_on sep (cs @ t) = butlast (split_on sep cs) @ split_on sep (last (split_on sep cs) @ t)"
        by (rule "2.IH"(2)[OF False "2.prems"])
      show ?thesis
      proof (cases xs)
        case Nil
        with x "2.prems" have "x = cs" by (auto dest: split_on_single)
        with x Nil False show ?thesis by simp
      next
        case (Cons y ys)
        with x ih False nt show ?thesis by simp
      qed
    qed
  qed
qed

lemma split_on_hd_prefix:
  assumes "sep \<noteq> []" shows "prefix (hd (split_on sep s)) s"
proof -
  obtain x xs where x: "split_on sep s = x # xs"
    using split_on_nonempty[of sep s] by (cases "split_on sep s") auto
  from split_on_join[OF assms, of s] x have "js_join sep (x # xs) = s" by simp
  then have "prefix x s" by (cases xs) auto
  with x show ?thesis by simp
qed

lemma split_on_no_delimiter:
  "sep \<noteq> [] \<Longrightarrow> seg \<in> set (split_on sep s) \<Longrightarrow> \<not> sublist sep seg"
proof (induction sep s arbitrary: seg rule: split_on.induct)
  case (1 sep)
  then show ?case by simp
next
  case (2 sep c cs)
  show ?case
  proof (cases "prefix sep (c # cs)")
    case True
    with "2.prems" have "seg = [] \<or> seg \<in> set (split_on sep (drop (length sep - 1) cs))"
      by simp
    then show ?thesis
      using "2.IH"(1)[OF True "2.prems"(1)] "2.prems"(1) by auto
  next
    case False
    obtain x xs where x: "split_on sep cs = x # xs"
      using split_on_nonempty[of sep cs] by (cases "split_on sep cs") auto
    with False "2.prems" have "seg = c # x \<or> seg \<in> set xs" by simp
    then show ?thesis
    proof
      assume s: "seg = c # x"
      have px: "prefix x cs" using split_on_hd_prefix[OF "2.prems"(1), of cs] x by simp
      have nx: "\<not> sublist sep x" using "2.IH"(2)[OF False "2.prems"(1), of x] x by simp
      have "\<not> prefix sep (c # x)"
      proof
        assume "prefix sep (c # x)"
        moreover have "prefix (c # x) (c # cs)" using px by simp
        ultimately have "prefix sep (c # cs)" by (rule prefix_order.trans)
        with False show False by simp
      qed
      with nx s show ?thesis by (simp add: sublist_Cons_right)
    next
      assume "seg \<in> set xs"
      then show ?thesis using "2.IH"(2)[OF False "2.prems"(1), of seg] x by simp
    qed
  qed
qed

lemma for_segments_record:
  "for_segments record_frame segments d frames = (frames @ segments, Inr d)"
  by (induction segments arbitrary: frames) (auto simp: record_frame_def)

lemma blank_line_ne: "blank_line \<noteq> []" by (simp add: blank_line_def)

lemma read_loop_record:
  "read_loop record_frame buffer (map (\<lambda>chunk. Read chunk False) chunks @ [Read [] True]) frames =
     (frames @ butlast (split_on blank_line (buffer @ concat chunks))
        @ final_frame (last (split_on blank_line (buffer @ concat chunks))), [], Finished)"
proof (induction chunks arbitrary: buffer frames)
  case Nil
  show ?case
    by (simp add: js_split_def blank_line_ne for_segments_record final_frame_def Let_def)
      (simp add: record_frame_def)
next
  case (Cons c chunks)
  let ?S = "split_on blank_line (buffer @ c)"
  have ap: "split_on blank_line ((buffer @ c) @ concat chunks)
      = butlast ?S @ split_on blank_line (last ?S @ concat chunks)"
    by (rule split_on_append[OF blank_line_ne])
  have ne: "split_on blank_line (last ?S @ concat chunks) \<noteq> []" by (rule split_on_nonempty)
  show ?case
    using ap ne
    by (simp add: js_split_def blank_line_ne for_segments_record Cons.IH butlast_append Let_def)
qed

lemma frames_of_deliver:
  "frames_of (deliver chunks) =
     butlast (split_on blank_line (concat chunks)) @ final_frame (last (split_on blank_line (concat chunks)))"
  using read_loop_record[of "[]" chunks "[]"] by (simp add: frames_of_def deliver_def)


lemma dropWhile_all: "(\<forall>c\<in>set (dropWhile P s). P c) \<longleftrightarrow> (\<forall>c\<in>set s. P c)"
  by (induction s) auto

lemma trim_empty_iff: "trim s = [] \<longleftrightarrow> (\<forall>c\<in>set s. is_space c)"
proof -
  have "trim s = [] \<longleftrightarrow> (\<forall>c\<in>set (rev (dropWhile is_space s)). is_space c)"
    by (simp add: trim_def dropWhile_eq_Nil_conv)
  also have "\<dots> \<longleftrightarrow> (\<forall>c\<in>set s. is_space c)"
    using dropWhile_all[of is_space s] by simp
  finally show ?thesis .
qed

section \<open>The frame reassembler\<close>

text \<open>
  Claim C1. The frames the reassembler produces do not depend on how the stream is
  cut into delivery chunks: two deliveries of the same text yield the same frames in
  the same order, and the delivery one code unit at a time yields the frames of the
  delivery in one chunk.
\<close>

theorem frames_chunk_boundary_invariant:
  "(concat chunks = concat chunks' \<longrightarrow> frames_of (deliver chunks) = frames_of (deliver chunks'))
   \<and> frames_of (deliver (map (\<lambda>c. [c]) stream)) = frames_of (deliver [stream])"
  by (simp add: frames_of_deliver)

text \<open>A stream of two frames, cut inside a word and inside the delimiter, and in one piece.\<close>

theorem frames_chunk_boundary_invariant_witness:
  "frames_of (deliver [''da'', ''ta: a'' @ [CHR 0x0A], [CHR 0x0A] @ ''data: b'']) = [''data: a'', ''data: b'']
   \<and> frames_of (deliver [''data: a'' @ blank_line @ ''data: b'']) = [''data: a'', ''data: b'']"
proof -
  let ?a = "[''da'', ''ta: a'' @ [CHR 0x0A], [CHR 0x0A] @ ''data: b'']"
  let ?b = "[''data: a'' @ blank_line @ ''data: b'']"
  have c: "concat ?a = concat ?b" by (simp add: blank_line_def)
  have b: "frames_of (deliver ?b) = [''data: a'', ''data: b'']" by code_simp
  from frames_chunk_boundary_invariant[of ?a ?b, THEN conjunct1, THEN mp, OF c] b
  show ?thesis by simp
qed

text \<open>
  Claim C4. A read that is not the last appends its text to the carryover buffer,
  splits the buffer on the blank line, emits all segments but the last in order and
  keeps the last as the new buffer. The read that ends the stream does the same,
  then emits the remaining buffer as one more frame if it holds a character that is
  not white space, and leaves the buffer empty. The segments joined by the delimiter
  are the buffer again, and no segment contains the delimiter.
\<close>

theorem reassembler_step:
  "read_loop record_frame buffer (Read text False # reads) frames =
     read_loop record_frame (last (js_split blank_line (buffer @ text))) reads
       (frames @ butlast (js_split blank_line (buffer @ text)))
   \<and> read_loop record_frame buffer (Read text True # reads) frames =
       (frames @ butlast (js_split blank_line (buffer @ text))
          @ (if \<exists>c\<in>set (last (js_split blank_line (buffer @ text))). \<not> is_space c
             then [last (js_split blank_line (buffer @ text))] else []),
        [], Finished)
   \<and> js_join blank_line (js_split blank_line (buffer @ text)) = buffer @ text
   \<and> (\<forall>segment\<in>set (js_split blank_line (buffer @ text)). \<not> sublist blank_line segment)"
proof (intro conjI)
  show "read_loop record_frame buffer (Read text False # reads) frames =
     read_loop record_frame (last (js_split blank_line (buffer @ text))) reads
       (frames @ butlast (js_split blank_line (buffer @ text)))"
    by (simp add: for_segments_record Let_def)
  show "read_loop record_frame buffer (Read text True # reads) frames =
       (frames @ butlast (js_split blank_line (buffer @ text))
          @ (if \<exists>c\<in>set (last (js_split blank_line (buffer @ text))). \<not> is_space c
             then [last (js_split blank_line (buffer @ text))] else []),
        [], Finished)"
    using trim_empty_iff[of "last (js_split blank_line (buffer @ text))"]
    by (simp add: for_segments_record Let_def) (auto simp: record_frame_def)
  show "js_join blank_line (js_split blank_line (buffer @ text)) = buffer @ text"
    by (simp add: js_split_def blank_line_ne split_on_join)
  show "\<forall>segment\<in>set (js_split blank_line (buffer @ text)). \<not> sublist blank_line segment"
    using split_on_no_delimiter[OF blank_line_ne] by (simp add: js_split_def blank_line_ne)
qed

text \<open>A carryover buffer completed by the next read, not at and at the end of the stream.\<close>

theorem reassembler_step_witness:
  "read_loop record_frame ''data: a'' [Read (blank_line @ ''data: b'' @ blank_line @ ''da'') False] []
     = ([''data: a'', ''data: b''], ''da'', Awaiting)
   \<and> read_loop record_frame ''data: a'' [Read (blank_line @ ''data: b'') True] []
     = ([''data: a'', ''data: b''], [], Finished)
   \<and> js_split blank_line (''data: a'' @ blank_line @ ''data: b'') = [''data: a'', ''data: b'']
   \<and> \<not> sublist blank_line ''data: a''"
  using reassembler_step[of "''data: a''" "blank_line @ ''data: b'' @ blank_line @ ''da''" "[]" "[]"]
    reassembler_step[of "''data: a''" "blank_line @ ''data: b''" "[]" "[]"]
  by (simp add: js_split_def blank_line_def is_space_def)

section \<open>The interpreter, case by case\<close>

lemma processEvent_no_data:
  "data_line frame = None \<Longrightarrow> processEvent E frame app st = (st, Inr False)"
  by (simp add: processEvent_def)




lemma processEvent_done:
  "data_line frame = Some dataLine \<Longrightarrow> JSON_parse E (strip_data_prefix dataLine) = Inr payload \<Longrightarrow>
   property payload ''event'' = Some (JString ''done'') \<Longrightarrow>
   processEvent E frame app st = (st, Inr True)"
  by (cases payload) (simp_all add: processEvent_def try_body_def)

lemma processEvent_chunk:
  "data_line frame = Some dataLine \<Longrightarrow> JSON_parse E (strip_data_prefix dataLine) = Inr payload \<Longrightarrow>
   property payload ''event'' = Some (JString ''chunk'') \<Longrightarrow>
   property payload ''content'' = Some (JString t) \<Longrightarrow>
   processEvent E frame app st = (app t st, Inr False)"
  by (cases payload) (simp_all add: processEvent_def try_body_def)

lemma string_value_None: "string_value c = None \<longleftrightarrow> (\<forall>t. c \<noteq> Some (JString t))"
  by (cases c rule: string_value.cases) auto

lemma processEvent_chunk_without_text:
  "data_line frame = Some dataLine \<Longrightarrow> JSON_parse E (strip_data_prefix dataLine) = Inr payload \<Longrightarrow>
   property payload ''event'' = Some (JString ''chunk'') \<Longrightarrow>
   \<forall>t. property payload ''content'' \<noteq> Some (JString t) \<Longrightarrow>
   processEvent E frame app st = (st, Inr False)"
proof -
  assume a: "data_line frame = Some dataLine" "JSON_parse E (strip_data_prefix dataLine) = Inr payload"
    "property payload ''event'' = Some (JString ''chunk'')"
    "\<forall>t. property payload ''content'' \<noteq> Some (JString t)"
  from a(4) have sv: "string_value (property payload ''content'') = None"
    by (simp add: string_value_None)
  from a(3) have nn: "payload \<noteq> JNull" by auto
  show ?thesis using a(1,2,3) sv nn by (simp add: processEvent_def try_body_def)
qed


lemma handleSubmit_raised:
  assumes "trim (inputValue s) \<noteq> []" and "\<not> isStreaming s"
    and "read_loop (session_handler E u2) [] reads
           (messages s @ [userMessage u1 (trim (inputValue s)), assistantMessage u2]) = (ms, b, Raised e)"
  shows "snd (handleSubmit E u1 u2 (Response True (Some reads)) s) =
           \<lparr>messages = ms, inputValue = [], isStreaming = False,
            errorMessage = Some (if name e = ''AbortError'' then Text ''Generation cancelled.'' else message e)\<rparr>"
  using assms by (simp add: handleSubmit_def handleSubmit_closure_def Let_def catch_clause_def finally_clause_def)

lemma handleSubmit_awaiting:
  assumes "trim (inputValue s) \<noteq> []" and "\<not> isStreaming s"
    and "read_loop (session_handler E u2) [] reads
           (messages s @ [userMessage u1 (trim (inputValue s)), assistantMessage u2]) = (ms, b, Awaiting)"
  shows "snd (handleSubmit E u1 u2 (Response True (Some reads)) s) =
           \<lparr>messages = ms, inputValue = [], isStreaming = True, errorMessage = None\<rparr>"
  using assms by (simp add: handleSubmit_def handleSubmit_closure_def Let_def)

lemma handleSubmit_finished:
  assumes "trim (inputValue s) \<noteq> []" and "\<not> isStreaming s"
    and "read_loop (session_handler E u2) [] reads
           (messages s @ [userMessage u1 (trim (inputValue s)), assistantMessage u2]) = (ms, b, Finished)"
  shows "snd (handleSubmit E u1 u2 (Response True (Some reads)) s) =
           \<lparr>messages = ms, inputValue = [], isStreaming = False, errorMessage = None\<rparr>"
  using assms by (simp add: handleSubmit_def handleSubmit_closure_def Let_def finally_clause_def)

section \<open>The loop does not inspect the transcript\<close>

lemma try_body_related:
  assumes "R a b" and step: "\<And>v x y. R x y \<Longrightarrow> R (f v x) (g v y)"
  shows "\<exists>a' b' r. try_body E dl f a = (a', r) \<and> try_body E dl g b = (b', r) \<and> R a' b'"
  using assms(1) step[OF assms(1)]
  by (auto simp: try_body_def Let_def split: sum.splits option.splits)

lemma processEvent_related:
  assumes "R a b" and step: "\<And>v x y. R x y \<Longrightarrow> R (f v x) (g v y)"
  shows "\<exists>a' b' r. processEvent E seg f a = (a', r) \<and> processEvent E seg g b = (b', r) \<and> R a' b'"
proof (cases "data_line seg")
  case None
  with assms(1) show ?thesis by (simp add: processEvent_def)
next
  case (Some dl)
  from try_body_related[of R a b f g E dl, OF assms(1) step]
  obtain a' b' r where "try_body E dl f a = (a', r)" "try_body E dl g b = (b', r)" "R a' b'"
    by blast
  with Some show ?thesis by (cases r) (simp_all add: processEvent_def)
qed

lemma for_segments_related:
  assumes hyp: "\<And>seg x y. R x y \<Longrightarrow> \<exists>x' y' r. h1 seg x = (x', r) \<and> h2 seg y = (y', r) \<and> R x' y'"
  shows "R a b \<Longrightarrow>
    \<exists>a' b' r. for_segments h1 segs d a = (a', r) \<and> for_segments h2 segs d b = (b', r) \<and> R a' b'"
proof (induction segs arbitrary: d a b)
  case Nil
  then show ?case by simp
next
  case (Cons seg segs)
  from hyp[OF Cons.prems, of seg] obtain x' y' r where
    h: "h1 seg a = (x', r)" "h2 seg b = (y', r)" "R x' y'" by blast
  show ?case
  proof (cases r)
    case (Inl e)
    with h show ?thesis by simp
  next
    case (Inr v)
    from Cons.IH[OF h(3), of "if v then True else d"] h Inr show ?thesis
      by (simp split del: if_split)
  qed
qed

lemma read_loop_related:
  assumes hyp: "\<And>seg x y. R x y \<Longrightarrow> \<exists>x' y' r. h1 seg x = (x', r) \<and> h2 seg y = (y', r) \<and> R x' y'"
  shows "R a b \<Longrightarrow>
    \<exists>a' b' buf en. read_loop h1 buf0 reads a = (a', buf, en) \<and> read_loop h2 buf0 reads b = (b', buf, en) \<and> R a' b'"
proof (induction reads arbitrary: buf0 a b)
  case Nil
  then show ?case by simp
next
  case (Cons rd reads)
  show ?case
  proof (cases rd)
    case (ReadThrows e)
    with Cons.prems show ?thesis by simp
  next
    case (Read tx dn)
    let ?segs = "js_split blank_line (buf0 @ tx)"
    from for_segments_related[of R h1 h2 a b "butlast ?segs" False, OF hyp Cons.prems]
    obtain a1 b1 r1 where
      fs: "for_segments h1 (butlast ?segs) False a = (a1, r1)"
          "for_segments h2 (butlast ?segs) False b = (b1, r1)" "R a1 b1" by blast
    show ?thesis
    proof (cases r1)
      case (Inl e)
      with fs Read show ?thesis by (simp add: Let_def)
    next
      case (Inr d1)
      from hyp[OF fs(3), of "last ?segs"] obtain a2 b2 r2 where
        fin: "h1 (last ?segs) a1 = (a2, r2)" "h2 (last ?segs) b1 = (b2, r2)" "R a2 b2" by blast
      from Cons.IH[OF fs(3), of "last ?segs"] obtain a3 b3 buf en where
        rec: "read_loop h1 (last ?segs) reads a1 = (a3, buf, en)"
             "read_loop h2 (last ?segs) reads b1 = (b3, buf, en)" "R a3 b3" by blast
      show ?thesis
        using fs Inr Read fin rec by (cases r2) (auto simp: Let_def)
    qed
  qed
qed

lemma session_related:
  assumes "R a b" and step: "\<And>v x y. R x y \<Longrightarrow> R (f v x) (g v y)"
  shows "\<exists>a' b' buf en.
     read_loop (\<lambda>seg. processEvent E seg f) buf0 reads a = (a', buf, en) \<and>
     read_loop (\<lambda>seg. processEvent E seg g) buf0 reads b = (b', buf, en) \<and> R a' b'"
  by (rule read_loop_related[where R = R, OF processEvent_related[where R = R, OF _ step] assms(1)])

text \<open>
  An interpreter that never throws and never reports the end is handed exactly the
  frames of the reassembler.
\<close>

lemma handled_frames:
  fixes h :: "string \<Rightarrow> 's \<Rightarrow> 's \<times> (js_error + bool)"
  assumes never: "\<And>seg st. \<exists>st'. h seg st = (st', Inr False)"
  shows "map fst (handled h reads st0) = frames_of reads"
proof -
  define R where "R = (\<lambda>(p :: 's \<times> (string \<times> 's) list) (frames :: string list). map fst (snd p) = frames)"
  have hyp: "\<And>seg x y. R x y \<Longrightarrow>
      \<exists>x' y' r. traced h seg x = (x', r) \<and> record_frame seg y = (y', r) \<and> R x' y'"
  proof -
    fix seg x y assume r: "R x y"
    obtain st' where "h seg (fst x) = (st', Inr False)" using never by blast
    then have "traced h seg x = ((st', snd x @ [(seg, fst x)]), Inr False)"
      by (simp add: traced_def)
    moreover have "record_frame seg y = (y @ [seg], Inr False)" by (simp add: record_frame_def)
    moreover have "R (st', snd x @ [(seg, fst x)]) (y @ [seg])" using r by (simp add: R_def)
    ultimately show "\<exists>x' y' r. traced h seg x = (x', r) \<and> record_frame seg y = (y', r) \<and> R x' y'"
      by blast
  qed
  have R0: "R (st0, []) []" by (simp add: R_def)
  from read_loop_related[of R "traced h" record_frame "(st0, [])" "[]" "[]" reads, OF hyp R0]
  show ?thesis by (auto simp: handled_def frames_of_def R_def)
qed

section \<open>Partial content\<close>

lemma session_handler_eq: "session_handler E u2 = (\<lambda>seg. processEvent E seg (appendChunk u2))"
  by (rule ext) (simp add: session_handler_def)

lemma carry_split:
  assumes "sep \<noteq> []"
  shows "split_on sep (last (split_on sep s)) = [last (split_on sep s)]"
proof -
  have ne: "split_on sep s \<noteq> []" by (rule split_on_nonempty)
  have "split_on sep (s @ []) = butlast (split_on sep s) @ split_on sep (last (split_on sep s) @ [])"
    by (rule split_on_append[OF assms])
  then have "butlast (split_on sep s) @ [last (split_on sep s)]
      = butlast (split_on sep s) @ split_on sep (last (split_on sep s))"
    using ne by simp
  then show ?thesis by simp
qed

lemma for_segments_append:
  "for_segments h (xs @ ys) d st =
     (case for_segments h xs d st of
        (st', Inl e) \<Rightarrow> (st', Inl e)
      | (st', Inr d') \<Rightarrow> for_segments h ys d' st')"
proof (induction xs arbitrary: d st)
  case Nil
  then show ?case by simp
next
  case (Cons x xs)
  obtain s1 r1 where h: "h x st = (s1, r1)" by (cases "h x st")
  show ?case
  proof (cases r1)
    case (Inl e)
    with h show ?thesis by simp
  next
    case (Inr b)
    with h Cons.IH[of "if b then True else d" s1] show ?thesis
      by (simp split del: if_split)
  qed
qed

lemma for_segments_done_stays:
  "for_segments h xs True st = (st', Inr d) \<Longrightarrow> d"
proof (induction xs arbitrary: st)
  case Nil
  then show ?case by simp
next
  case (Cons x xs)
  obtain s1 r1 where h: "h x st = (s1, r1)" by (cases "h x st")
  show ?case
  proof (cases r1)
    case (Inl e)
    with h Cons.prems show ?thesis by simp
  next
    case (Inr b)
    with h Cons.prems have "for_segments h xs True s1 = (st', Inr d)" by simp
    then show ?thesis by (rule Cons.IH)
  qed
qed

lemma for_segments_split_quiet:
  assumes "for_segments h (xs @ ys) False st = (st2, Inr False)"
  shows "\<exists>st1. for_segments h xs False st = (st1, Inr False) \<and> for_segments h ys False st1 = (st2, Inr False)"
proof -
  obtain s1 r1 where a: "for_segments h xs False st = (s1, r1)" by (cases "for_segments h xs False st")
  show ?thesis
  proof (cases r1)
    case (Inl e)
    with a assms show ?thesis by (simp add: for_segments_append)
  next
    case (Inr d)
    with a assms have b: "for_segments h ys d s1 = (st2, Inr False)" by (simp add: for_segments_append)
    have "\<not> d"
    proof
      assume d
      with b have "for_segments h ys True s1 = (st2, Inr False)" by simp
      from for_segments_done_stays[OF this] show False by simp
    qed
    with a b Inr show ?thesis by simp
  qed
qed

text \<open>
  Frames that neither throw nor report the end are handled one after the other,
  however the text that holds them is cut into reads.
\<close>

lemma loop_quiet:
  assumes "split_on blank_line buffer = [buffer]"
    and "split_on blank_line (buffer @ concat chunks) = pre @ [carry]"
    and "for_segments h pre False st = (st1, Inr False)"
  shows "read_loop h buffer (map (\<lambda>c. Read c False) chunks @ later) st = read_loop h carry later st1"
  using assms
proof (induction chunks arbitrary: buffer pre st)
  case Nil
  then show ?case by simp
next
  case (Cons c chunks)
  let ?S = "split_on blank_line (buffer @ c)"
  let ?X = "split_on blank_line (last ?S @ concat chunks)"
  have ap: "split_on blank_line ((buffer @ c) @ concat chunks) = butlast ?S @ ?X"
    by (rule split_on_append[OF blank_line_ne])
  have xne: "?X \<noteq> []" by (rule split_on_nonempty)
  from ap Cons.prems(2) have "butlast ?S @ butlast ?X @ [last ?X] = pre @ [carry]"
    using xne by simp
  then have pre: "pre = butlast ?S @ butlast ?X" and carry: "carry = last ?X"
    by (metis append_assoc butlast_snoc, metis append_assoc last_snoc)
  from for_segments_split_quiet[of h "butlast ?S" "butlast ?X" st st1] Cons.prems(3) pre
  obtain sm where sm: "for_segments h (butlast ?S) False st = (sm, Inr False)"
    "for_segments h (butlast ?X) False sm = (st1, Inr False)" by auto
  have cs: "split_on blank_line (last ?S) = [last ?S]" by (rule carry_split[OF blank_line_ne])
  have x: "?X = butlast ?X @ [carry]" using xne carry by simp
  have "read_loop h (last ?S) (map (\<lambda>c. Read c False) chunks @ later) sm = read_loop h carry later st1"
    by (rule Cons.IH[OF cs x sm(2)])
  then show ?case using sm(1) by (simp add: js_split_def blank_line_ne Let_def)
qed

text \<open>
  After frames that neither throw nor report the end, a complete frame on which the
  handler throws ends the loop with what it throws, in the state it leaves, however
  the text is cut into reads.
\<close>

lemma loop_throw:
  assumes "split_on blank_line buffer = [buffer]"
    and "split_on blank_line (buffer @ concat chunks) = pre @ bad # post" and "post \<noteq> []"
    and "for_segments h pre False st = (st1, Inr False)"
    and "h bad st1 = (st2, Inl e)"
  shows "\<exists>b. read_loop h buffer (map (\<lambda>c. Read c False) chunks @ later) st = (st2, b, Raised e)"
  using assms
proof (induction chunks arbitrary: buffer pre st)
  case Nil
  then have "[buffer] = pre @ bad # post" by simp
  with Nil.prems(3) show ?case by (cases pre) auto
next
  case (Cons c chunks)
  let ?S = "split_on blank_line (buffer @ c)"
  let ?X = "split_on blank_line (last ?S @ concat chunks)"
  have ap: "split_on blank_line ((buffer @ c) @ concat chunks) = butlast ?S @ ?X"
    by (rule split_on_append[OF blank_line_ne])
  with Cons.prems(2) have eq: "butlast ?S @ ?X = pre @ bad # post" by simp
  have cs: "split_on blank_line (last ?S) = [last ?S]" by (rule carry_split[OF blank_line_ne])
  show ?case
  proof (cases "length pre < length (butlast ?S)")
    case True
    from eq have "take (Suc (length pre)) (butlast ?S @ ?X) = take (Suc (length pre)) (pre @ bad # post)"
      by simp
    with True have tk: "take (Suc (length pre)) (butlast ?S) = pre @ [bad]" by simp
    have "butlast ?S = take (Suc (length pre)) (butlast ?S) @ drop (Suc (length pre)) (butlast ?S)"
      by simp
    with tk have fr: "butlast ?S = pre @ bad # drop (Suc (length pre)) (butlast ?S)" by simp
    have "for_segments h (butlast ?S) False st = (st2, Inl e)"
      using Cons.prems(4,5) by (subst fr) (simp add: for_segments_append)
    then show ?thesis by (simp add: js_split_def blank_line_ne Let_def)
  next
    case False
    then have le: "length (butlast ?S) \<le> length pre" by simp
    from eq have "take (length (butlast ?S)) (butlast ?S @ ?X) = take (length (butlast ?S)) (pre @ bad # post)"
      by simp
    with le have tk: "butlast ?S = take (length (butlast ?S)) pre" by simp
    define pre' where "pre' = drop (length (butlast ?S)) pre"
    have "pre = take (length (butlast ?S)) pre @ drop (length (butlast ?S)) pre"
      by (simp only: append_take_drop_id)
    then have pre: "pre = butlast ?S @ pre'" using tk by (simp only: pre'_def)
    with eq have x: "?X = pre' @ bad # post" by simp
    from for_segments_split_quiet[of h "butlast ?S" pre' st st1] Cons.prems(4) pre
    obtain sm where sm: "for_segments h (butlast ?S) False st = (sm, Inr False)"
      "for_segments h pre' False sm = (st1, Inr False)" by auto
    from Cons.IH[OF cs x Cons.prems(3) sm(2) Cons.prems(5)]
    obtain b where "read_loop h (last ?S) (map (\<lambda>c. Read c False) chunks @ later) sm = (st2, b, Raised e)"
      by blast
    then show ?thesis using sm(1) by (simp add: js_split_def blank_line_ne Let_def)
  qed
qed

lemma chunk_text_applied:
  assumes "chunk_text E frame = Some t"
  shows "processEvent E frame app st = (app t st, Inr False)"
proof -
  from assms obtain dl where dl: "data_line frame = Some dl"
    by (auto simp: chunk_text_def split: option.splits)
  with assms obtain payload where p: "JSON_parse E (strip_data_prefix dl) = Inr payload"
    by (auto simp: chunk_text_def split: sum.splits)
  with assms dl have ev: "property payload ''event'' = Some (JString ''chunk'')"
    and sv: "string_value (property payload ''content'') = Some t"
    by (auto simp: chunk_text_def split: if_splits)
  from sv have "property payload ''content'' = Some (JString t)"
    by (cases "property payload ''content''" rule: string_value.cases) auto
  from processEvent_chunk[OF dl p ev this] show ?thesis .
qed

lemma chunk_frames_applied:
  "list_all2 (\<lambda>frame t. chunk_text E frame = Some t) frames texts \<Longrightarrow>
   for_segments (session_handler E aid) frames False ms = (fold (appendChunk aid) texts ms, Inr False)"
proof (induction frames texts arbitrary: ms rule: list_all2_induct)
  case Nil
  then show ?case by simp
next
  case (Cons f fs t ts)
  have "session_handler E aid f ms = (appendChunk aid t ms, Inr False)"
    unfolding session_handler_def by (rule chunk_text_applied[OF Cons.hyps(1)])
  with Cons.IH[of "appendChunk aid t ms"] show ?case by simp
qed

lemma appendChunk_fresh:
  assumes "aid \<notin> set (map msg_id old)" and "msg_id um \<noteq> aid" and "msg_id am = aid"
  shows "appendChunk aid v (old @ [um, am]) = old @ [um, am\<lparr>content := content am @ v\<rparr>]"
proof -
  have "map (\<lambda>m. if msg_id m = aid then m\<lparr>content := content m @ v\<rparr> else m) old = old"
    using assms(1) by (intro map_idI) auto
  with assms(2,3) show ?thesis by (simp add: appendChunk_def)
qed

lemma fold_appendChunk_fresh:
  assumes "aid \<notin> set (map msg_id old)" and "msg_id um \<noteq> aid"
  shows "msg_id am = aid \<Longrightarrow>
    fold (appendChunk aid) texts (old @ [um, am]) = old @ [um, am\<lparr>content := content am @ concat texts\<rparr>]"
proof (induction texts arbitrary: am)
  case Nil
  then show ?case by simp
next
  case (Cons t texts)
  have "msg_id (am\<lparr>content := content am @ t\<rparr>) = aid" using Cons.prems by simp
  from Cons.IH[OF this] appendChunk_fresh[OF assms Cons.prems, of t] show ?case by simp
qed

lemma processEvent_throw_any:
  assumes "snd (processEvent E frame g u) = Inl e"
  shows "processEvent E frame app st = (st, Inl e)"
proof (cases "data_line frame")
  case None
  with assms show ?thesis by (simp add: processEvent_def)
next
  case (Some dl)
  show ?thesis
  proof (cases "JSON_parse E (strip_data_prefix dl)")
    case (Inl thrown)
    with Some assms show ?thesis by (simp add: processEvent_def try_body_def)
  next
    case (Inr payload)
    with Some assms show ?thesis
      by (auto simp: processEvent_def try_body_def Let_def split: if_splits option.splits)
  qed
qed

lemma opened_transcript:
  assumes "aid \<notin> set (map msg_id (messages s))" and "aid \<noteq> uid"
    and "list_all2 (\<lambda>frame t. chunk_text E frame = Some t) frames texts"
  shows "for_segments (session_handler E aid) frames False
           (messages s @ [userMessage uid input, assistantMessage aid])
         = (messages s @ [userMessage uid input, (assistantMessage aid)\<lparr>content := concat texts\<rparr>], Inr False)"
proof -
  have u: "msg_id (userMessage uid input) \<noteq> aid" using assms(2) by (simp add: userMessage_def)
  have a: "msg_id (assistantMessage aid) = aid" by (simp add: assistantMessage_def)
  have c: "content (assistantMessage aid) = []" by (simp add: assistantMessage_def)
  from fold_appendChunk_fresh[OF assms(1) u a, of texts] c chunk_frames_applied[OF assms(3), of aid]
  show ?thesis by simp
qed

lemma session_fails_after_chunks:
  assumes "trim (inputValue s) \<noteq> []" and "\<not> isStreaming s"
    and "aid \<notin> set (map msg_id (messages s))" and "aid \<noteq> uid"
    and "list_all2 (\<lambda>frame t. chunk_text E frame = Some t) frames texts"
    and "js_split blank_line (concat chunks) = frames @ bad # others" and "others \<noteq> []"
    and "snd (processEvent E bad g u) = Inl e"
  shows "snd (handleSubmit E uid aid (Response True (Some (map (\<lambda>c. Read c False) chunks @ later))) s) =
           \<lparr>messages = messages s @ [userMessage uid (trim (inputValue s)),
                                      (assistantMessage aid)\<lparr>content := concat texts\<rparr>],
            inputValue = [], isStreaming = False,
            errorMessage = Some (if name e = ''AbortError'' then Text ''Generation cancelled.'' else message e)\<rparr>"
proof -
  let ?ms0 = "messages s @ [userMessage uid (trim (inputValue s)), assistantMessage aid]"
  let ?ms1 = "messages s @ [userMessage uid (trim (inputValue s)), (assistantMessage aid)\<lparr>content := concat texts\<rparr>]"
  have e0: "split_on blank_line [] = [[]]" by simp
  have sp: "split_on blank_line ([] @ concat chunks) = frames @ bad # others"
    using assms(6) by (simp add: js_split_def blank_line_ne)
  have q: "for_segments (session_handler E aid) frames False ?ms0 = (?ms1, Inr False)"
    by (rule opened_transcript[OF assms(3,4,5)])
  have t: "session_handler E aid bad ?ms1 = (?ms1, Inl e)"
    unfolding session_handler_def by (rule processEvent_throw_any[OF assms(8)])
  from loop_throw[OF e0 sp assms(7) q t, of later] obtain b where
    "read_loop (session_handler E aid) [] (map (\<lambda>c. Read c False) chunks @ later) ?ms0 = (?ms1, b, Raised e)"
    by blast
  from handleSubmit_raised[OF assms(1,2) this] show ?thesis .
qed

lemma session_cancelled_after_chunks:
  assumes "trim (inputValue s) \<noteq> []" and "\<not> isStreaming s"
    and "aid \<notin> set (map msg_id (messages s))" and "aid \<noteq> uid"
    and "list_all2 (\<lambda>frame t. chunk_text E frame = Some t) frames texts"
    and "js_split blank_line (concat chunks) = frames @ [carry]"
  shows "snd (handleSubmit E uid aid
                (Response True (Some (map (\<lambda>c. Read c False) chunks @ ReadThrows e # later))) s) =
           \<lparr>messages = messages s @ [userMessage uid (trim (inputValue s)),
                                      (assistantMessage aid)\<lparr>content := concat texts\<rparr>],
            inputValue = [], isStreaming = False,
            errorMessage = Some (if name e = ''AbortError'' then Text ''Generation cancelled.'' else message e)\<rparr>"
proof -
  let ?ms0 = "messages s @ [userMessage uid (trim (inputValue s)), assistantMessage aid]"
  let ?ms1 = "messages s @ [userMessage uid (trim (inputValue s)), (assistantMessage aid)\<lparr>content := concat texts\<rparr>]"
  have e0: "split_on blank_line [] = [[]]" by simp
  have sp: "split_on blank_line ([] @ concat chunks) = frames @ [carry]"
    using assms(6) by (simp add: js_split_def blank_line_ne)
  have q: "for_segments (session_handler E aid) frames False ?ms0 = (?ms1, Inr False)"
    by (rule opened_transcript[OF assms(3,4,5)])
  have "read_loop (session_handler E aid) [] (map (\<lambda>c. Read c False) chunks @ ReadThrows e # later) ?ms0
      = read_loop (session_handler E aid) carry (ReadThrows e # later) ?ms1"
    by (rule loop_quiet[OF e0 sp q])
  then have "read_loop (session_handler E aid) [] (map (\<lambda>c. Read c False) chunks @ ReadThrows e # later) ?ms0
      = (?ms1, carry, Raised e)" by simp
  from handleSubmit_raised[OF assms(1,2) this] show ?thesis .
qed

text \<open>
  Claim C5. A session whose stream holds chunk frames and then fails keeps the
  concatenation of their contents, in order, as the content of the assistant message,
  however the text of the stream is cut into reads. The failure is either a complete
  frame on which the interpreter throws (an error event, a payload that does not
  parse), or a read that throws, as the read of an aborted request does; in both
  cases the rest of the transcript is untouched, streaming is over and the notice is
  \<^verbatim>\<open>Generation cancelled.\<close> for an \<^verbatim>\<open>AbortError\<close> and the message of the error otherwise.
\<close>

theorem partial_content_preserved:
  assumes "trim (inputValue s) \<noteq> []" and "\<not> isStreaming s"
    and "aid \<notin> set (map msg_id (messages s))" and "aid \<noteq> uid"
    and "list_all2 (\<lambda>frame t. chunk_text E frame = Some t) frames texts"
  shows "(js_split blank_line (concat chunks) = frames @ bad # others \<and> others \<noteq> []
            \<and> snd (processEvent E bad (\<lambda>v u. u) ()) = Inl e \<longrightarrow>
          snd (handleSubmit E uid aid (Response True (Some (map (\<lambda>c. Read c False) chunks @ later))) s) =
            \<lparr>messages = messages s @ [userMessage uid (trim (inputValue s)),
                                       (assistantMessage aid)\<lparr>content := concat texts\<rparr>],
             inputValue = [], isStreaming = False,
             errorMessage = Some (if name e = ''AbortError'' then Text ''Generation cancelled.''
                                  else message e)\<rparr>)
       \<and> (js_split blank_line (concat chunks) = frames @ [carry] \<longrightarrow>
          snd (handleSubmit E uid aid
                 (Response True (Some (map (\<lambda>c. Read c False) chunks @ ReadThrows e # later))) s) =
            \<lparr>messages = messages s @ [userMessage uid (trim (inputValue s)),
                                       (assistantMessage aid)\<lparr>content := concat texts\<rparr>],
             inputValue = [], isStreaming = False,
             errorMessage = Some (if name e = ''AbortError'' then Text ''Generation cancelled.''
                                  else message e)\<rparr>)"
proof (intro conjI impI)
  assume a: "js_split blank_line (concat chunks) = frames @ bad # others \<and> others \<noteq> []
            \<and> snd (processEvent E bad (\<lambda>v u. u) ()) = Inl e"
  from a have a1: "js_split blank_line (concat chunks) = frames @ bad # others" by (elim conjE)
  from a have a2: "others \<noteq> []" by (elim conjE)
  from a have a3: "snd (processEvent E bad (\<lambda>v u. u) ()) = Inl e" by (elim conjE)
  show "snd (handleSubmit E uid aid (Response True (Some (map (\<lambda>c. Read c False) chunks @ later))) s) =
            \<lparr>messages = messages s @ [userMessage uid (trim (inputValue s)),
                                       (assistantMessage aid)\<lparr>content := concat texts\<rparr>],
             inputValue = [], isStreaming = False,
             errorMessage = Some (if name e = ''AbortError'' then Text ''Generation cancelled.''
                                  else message e)\<rparr>"
    by (rule session_fails_after_chunks[OF assms a1 a2 a3])
next
  assume "js_split blank_line (concat chunks) = frames @ [carry]"
  then show "snd (handleSubmit E uid aid
                 (Response True (Some (map (\<lambda>c. Read c False) chunks @ ReadThrows e # later))) s) =
            \<lparr>messages = messages s @ [userMessage uid (trim (inputValue s)),
                                       (assistantMessage aid)\<lparr>content := concat texts\<rparr>],
             inputValue = [], isStreaming = False,
             errorMessage = Some (if name e = ''AbortError'' then Text ''Generation cancelled.''
                                  else message e)\<rparr>"
    by (rule session_cancelled_after_chunks[OF assms])
qed

text \<open>
  Two chunk frames and an error frame in one read; and two chunk frames cut inside a
  frame, followed by a read that throws the \<^verbatim>\<open>AbortError\<close> of a stopped request.
\<close>

theorem partial_content_preserved_witness:
  \<open>snd (handleSubmit reference_engine ''u1'' ''u2''
      (Response True (Some [Read (''data: {"event":"chunk","content":"Hel"}'' @ blank_line
                                   @ ''data: {"event":"chunk","content":"lo"}'' @ blank_line
                                   @ ''data: {"event":"error","content":"overloaded"}'' @ blank_line) False]))
      (initialApp\<lparr>inputValue := ''hi''\<rparr>))
    = \<lparr>messages = initialMessages @ [userMessage ''u1'' ''hi'', (assistantMessage ''u2'')\<lparr>content := ''Hello''\<rparr>],
       inputValue = [], isStreaming = False, errorMessage = Some (Text ''overloaded'')\<rparr>
   \<and> snd (handleSubmit reference_engine ''u1'' ''u2''
      (Response True (Some [Read (''data: {"event":"chunk","content":"Hel"}'' @ blank_line
                                   @ ''data: {"event":"chu'') False,
                            Read (''nk","content":"lo"}'' @ blank_line @ ''data: {"ev'') False,
                            ReadThrows (ErrorObject ''AbortError'' (Text ''The user aborted a request.''))]))
      (initialApp\<lparr>inputValue := ''hi''\<rparr>))
    = \<lparr>messages = initialMessages @ [userMessage ''u1'' ''hi'', (assistantMessage ''u2'')\<lparr>content := ''Hello''\<rparr>],
       inputValue = [], isStreaming = False, errorMessage = Some (Text ''Generation cancelled.'')\<rparr>\<close>
proof -
  let ?s = "initialApp\<lparr>inputValue := ''hi''\<rparr>"
  let ?f1 = \<open>''data: {"event":"chunk","content":"Hel"}''\<close>
  let ?f2 = \<open>''data: {"event":"chunk","content":"lo"}''\<close>
  let ?bad = \<open>''data: {"event":"error","content":"overloaded"}''\<close>
  let ?e = "ErrorObject ''Error'' (Text ''overloaded'')"
  let ?abort = "ErrorObject ''AbortError'' (Text ''The user aborted a request.'')"
  let ?chunksA = "[?f1 @ blank_line @ ?f2 @ blank_line @ ?bad @ blank_line]"
  let ?chunksB = \<open>[?f1 @ blank_line @ ''data: {"event":"chu'', ''nk","content":"lo"}'' @ blank_line @ ''data: {"ev'']\<close>
  have h1: "trim (inputValue ?s) \<noteq> []" by code_simp
  have h2: "\<not> isStreaming ?s" by code_simp
  have h3: "''u2'' \<notin> set (map msg_id (messages ?s))" by code_simp
  have h4: "''u2'' \<noteq> ''u1''" by simp
  have h5: "list_all2 (\<lambda>frame t. chunk_text reference_engine frame = Some t) [?f1, ?f2] [''Hel'', ''lo'']"
    by code_simp
  have a: "js_split blank_line (concat ?chunksA) = [?f1, ?f2] @ ?bad # [[]] \<and> [[]] \<noteq> []
            \<and> snd (processEvent reference_engine ?bad (\<lambda>v u. u) ()) = Inl ?e"
    by code_simp
  have b: \<open>js_split blank_line (concat ?chunksB) = [?f1, ?f2] @ [''data: {"ev'']\<close>
    by code_simp
  have t: "trim (inputValue ?s) = ''hi''" by code_simp
  have m: "messages ?s = initialMessages" by (simp add: initialApp_def)
  have c: "concat [''Hel'', ''lo''] = ''Hello''" by simp
  have n1: "(if name ?e = ''AbortError'' then Text ''Generation cancelled.'' else message ?e) = Text ''overloaded''"
    by simp
  have n2: "(if name ?abort = ''AbortError'' then Text ''Generation cancelled.'' else message ?abort)
      = Text ''Generation cancelled.''" by simp
  note A = partial_content_preserved[OF h1 h2 h3 h4 h5, where later = "[]",
      THEN conjunct1, THEN mp, OF a]
  note B = partial_content_preserved[OF h1 h2 h3 h4 h5, where later = "[]" and e = ?abort,
      THEN conjunct2, THEN mp, OF b]
  from A B show ?thesis by (simp only: t m c n1 n2 map_append list.map append_Nil2 append.simps)
qed

section \<open>Submitting\<close>

text \<open>
  Claim C9. In a transcript whose ids are unique, applying a chunk changes the
  active assistant message only: the length of the transcript and the order of its
  ids stay, every other message stays as it is, and the content of the active message
  is its old content with the chunk appended.
\<close>

theorem appendChunk_frame:
  assumes "distinct (map msg_id ms)" and "k < length ms" and "msg_id (ms ! k) = a"
  shows "length (appendChunk a v ms) = length ms
       \<and> map msg_id (appendChunk a v ms) = map msg_id ms
       \<and> (\<forall>i<length ms. i \<noteq> k \<longrightarrow> appendChunk a v ms ! i = ms ! i)
       \<and> appendChunk a v ms ! k = (ms ! k)\<lparr>content := content (ms ! k) @ v\<rparr>"
proof (intro conjI allI impI)
  show "length (appendChunk a v ms) = length ms" by (simp add: appendChunk_def)
  show "map msg_id (appendChunk a v ms) = map msg_id ms" by (simp add: appendChunk_def)
  show "appendChunk a v ms ! k = (ms ! k)\<lparr>content := content (ms ! k) @ v\<rparr>"
    using assms(2,3) by (simp add: appendChunk_def)
next
  fix i assume i: "i < length ms" "i \<noteq> k"
  have "msg_id (ms ! i) \<noteq> msg_id (ms ! k)"
    using assms(1,2) i by (simp add: distinct_conv_nth)
  with assms(3) i show "appendChunk a v ms ! i = ms ! i" by (simp add: appendChunk_def)
qed

text \<open>
  A chunk appended to the second of two messages.
\<close>

theorem appendChunk_frame_witness:
  "appendChunk ''u2'' ''lo'' [userMessage ''u1'' ''hi'', (assistantMessage ''u2'')\<lparr>content := ''Hel''\<rparr>] ! 0
      = userMessage ''u1'' ''hi''
   \<and> appendChunk ''u2'' ''lo'' [userMessage ''u1'' ''hi'', (assistantMessage ''u2'')\<lparr>content := ''Hel''\<rparr>] ! 1
      = (assistantMessage ''u2'')\<lparr>content := ''Hello''\<rparr>
   \<and> length (appendChunk ''u2'' ''lo'' [userMessage ''u1'' ''hi'', (assistantMessage ''u2'')\<lparr>content := ''Hel''\<rparr>]) = 2"
proof -
  let ?ms = "[userMessage ''u1'' ''hi'', (assistantMessage ''u2'')\<lparr>content := ''Hel''\<rparr>]"
  have h1: "distinct (map msg_id ?ms)" by (simp add: userMessage_def assistantMessage_def)
  have h2: "1 < length ?ms" by simp
  have h3: "msg_id (?ms ! 1) = ''u2''" by (simp add: assistantMessage_def)
  note F = appendChunk_frame[OF h1 h2 h3, of "''lo''"]
  from F have A: "\<forall>i<length ?ms. i \<noteq> 1 \<longrightarrow> appendChunk ''u2'' ''lo'' ?ms ! i = ?ms ! i"
    by (elim conjE)
  have l0: "0 < length ?ms" by simp
  have n0: "(0::nat) \<noteq> 1" by simp
  from A[rule_format, OF l0 n0] have F0: "appendChunk ''u2'' ''lo'' ?ms ! 0 = ?ms ! 0" .
  from F have F1: "appendChunk ''u2'' ''lo'' ?ms ! 1 = (?ms ! 1)\<lparr>content := content (?ms ! 1) @ ''lo''\<rparr>"
    by (elim conjE)
  from F have FL: "length (appendChunk ''u2'' ''lo'' ?ms) = length ?ms" by (elim conjE)
  have e1: "(?ms ! 1)\<lparr>content := content (?ms ! 1) @ ''lo''\<rparr> = (assistantMessage ''u2'')\<lparr>content := ''Hello''\<rparr>"
    by (simp add: assistantMessage_def)
  show ?thesis
    by (intro conjI) (simp only: F0 nth_Cons_0, simp only: F1 e1, simp only: FL, simp)
qed

lemma trim_decompose:
  "\<exists>l r. s = l @ trim s @ r \<and> (\<forall>c\<in>set l. is_space c) \<and> (\<forall>c\<in>set r. is_space c)"
proof -
  let ?d = "dropWhile is_space s"
  have "?d = rev (dropWhile is_space (rev ?d)) @ rev (takeWhile is_space (rev ?d))"
    by (metis rev_append rev_rev_ident takeWhile_dropWhile_id)
  then have d: "?d = trim s @ rev (takeWhile is_space (rev ?d))"
    by (simp only: trim_def)
  have "s = takeWhile is_space s @ ?d" by simp
  with d have "s = takeWhile is_space s @ trim s @ rev (takeWhile is_space (rev ?d))" by simp
  moreover have "\<forall>c\<in>set (takeWhile is_space s). is_space c" by (auto dest: set_takeWhileD)
  moreover have "\<forall>c\<in>set (rev (takeWhile is_space (rev ?d))). is_space c"
    by (auto dest: set_takeWhileD)
  ultimately show ?thesis by blast
qed

lemma last_dropWhile_keep:
  assumes "dropWhile P xs \<noteq> []" shows "last (dropWhile P xs) = last xs"
proof -
  have "last (takeWhile P xs @ dropWhile P xs) = last (dropWhile P xs)"
    using assms by (rule last_appendR)
  then show ?thesis by simp
qed

lemma trim_ends:
  assumes "trim s \<noteq> []"
  shows "\<not> is_space (hd (trim s)) \<and> \<not> is_space (last (trim s))"
proof -
  let ?d = "dropWhile is_space s"
  let ?e = "dropWhile is_space (rev ?d)"
  from assms have e: "?e \<noteq> []" by (simp add: trim_def)
  then have l: "\<not> is_space (hd ?e)" by (rule hd_dropWhile)
  have "last (trim s) = hd ?e" using e by (simp add: trim_def last_rev)
  with l have A: "\<not> is_space (last (trim s))" by simp
  have dne: "?d \<noteq> []"
  proof
    assume "?d = []"
    then have "rev ?d = []" by (simp only: rev.simps)
    then have "?e = []" by (simp only: dropWhile.simps)
    with e show False by (simp only: not_True_eq_False simp_thms)
  qed
  then have hd: "\<not> is_space (hd ?d)" by (rule hd_dropWhile)
  have "hd (trim s) = last ?e" using e by (simp add: trim_def hd_rev)
  also have "\<dots> = last (rev ?d)" using e by (rule last_dropWhile_keep)
  also have "\<dots> = hd ?d" using dne by (simp add: last_rev)
  finally have "\<not> is_space (hd (trim s))" using hd by simp
  with A show ?thesis by simp
qed

lemma read_loop_invariant:
  assumes "I ms" and step: "\<And>v x. I x \<Longrightarrow> I (appendChunk u2 v x)"
  shows "I (fst (read_loop (session_handler E u2) buf0 reads ms))"
proof -
  have st: "\<And>v x y. (\<lambda>a (b :: Message list). I a) x y \<Longrightarrow> (\<lambda>a b. I a) (appendChunk u2 v x) (appendChunk u2 v y)"
    using step by simp
  from session_related[of "\<lambda>a b. I a" ms ms "appendChunk u2" "appendChunk u2" E buf0 reads, OF assms(1) st]
  show ?thesis by (auto simp: session_handler_eq)
qed

lemma handleSubmit_messages:
  assumes "trim (inputValue s) \<noteq> []" and "\<not> isStreaming s"
  shows "messages (snd (handleSubmit E u1 u2 answer s)) =
           (case answer of
              Response True (Some reads) \<Rightarrow>
                fst (read_loop (session_handler E u2) [] reads
                      (messages s @ [userMessage u1 (trim (inputValue s)), assistantMessage u2]))
            | _ \<Rightarrow> messages s @ [userMessage u1 (trim (inputValue s)), assistantMessage u2])"
  using assms
  by (auto simp: handleSubmit_def handleSubmit_closure_def Let_def catch_clause_def finally_clause_def
      split: fetch_result.splits option.splits bool.splits prod.splits loop_end.splits)

lemma user_message_kept:
  assumes "trim (inputValue s) \<noteq> []" and "\<not> isStreaming s" and "u1 \<noteq> u2"
  shows "messages (snd (handleSubmit E u1 u2 answer s)) ! length (messages s)
           = userMessage u1 (trim (inputValue s))"
proof -
  let ?um = "userMessage u1 (trim (inputValue s))"
  let ?ms0 = "messages s @ [?um, assistantMessage u2]"
  define I where "I = (\<lambda>ms :: Message list. length (messages s) < length ms \<and> ms ! length (messages s) = ?um)"
  have I0: "I ?ms0" by (simp add: I_def)
  have step: "\<And>v x. I x \<Longrightarrow> I (appendChunk u2 v x)"
    using assms(3) by (auto simp: I_def appendChunk_def userMessage_def)
  have loop: "\<And>reads. I (fst (read_loop (session_handler E u2) [] reads ?ms0))"
    by (rule read_loop_invariant[of I, OF I0 step])
  show ?thesis
    using handleSubmit_messages[OF assms(1,2), of E u1 u2 answer] I0 loop
    by (auto simp: I_def split: fetch_result.splits option.splits bool.splits)
qed

text \<open>
  Claim C10. A submission whose input holds nothing but white space changes
  nothing and sends nothing. An accepted submission sends the messages that are not
  flagged \<^verbatim>\<open>skipContext\<close>, in order, followed by the user message, and appends a user
  message whose content is the trimmed input; the trimmed input is the input without
  the white space at its two ends.
\<close>

theorem submission_contract:
  "((\<forall>c\<in>set (inputValue s). is_space c) \<longrightarrow> handleSubmit E u1 u2 answer s = (None, s))
   \<and> ((\<exists>c\<in>set (inputValue s). \<not> is_space c) \<and> \<not> isStreaming s \<longrightarrow>
        fst (handleSubmit E u1 u2 answer s) =
          Some (map (\<lambda>m. (role m, content m)) (filter (\<lambda>m. skipContext m \<noteq> Some True) (messages s))
                @ [(User, trim (inputValue s))])
        \<and> (u1 \<noteq> u2 \<longrightarrow>
             messages (snd (handleSubmit E u1 u2 answer s)) ! length (messages s)
               = \<lparr>msg_id = u1, role = User, content = trim (inputValue s), skipContext = None\<rparr>))
   \<and> (\<exists>l r. inputValue s = l @ trim (inputValue s) @ r
          \<and> (\<forall>c\<in>set l. is_space c) \<and> (\<forall>c\<in>set r. is_space c))
   \<and> (trim (inputValue s) \<noteq> [] \<longrightarrow>
        \<not> is_space (hd (trim (inputValue s))) \<and> \<not> is_space (last (trim (inputValue s))))"
proof (intro conjI impI)
  assume "\<forall>c\<in>set (inputValue s). is_space c"
  then have "trim (inputValue s) = []" by (simp add: trim_empty_iff)
  then show "handleSubmit E u1 u2 answer s = (None, s)" by (simp add: handleSubmit_def handleSubmit_closure_def)
next
  assume a: "(\<exists>c\<in>set (inputValue s). \<not> is_space c) \<and> \<not> isStreaming s"
  then have t: "trim (inputValue s) \<noteq> []" by (simp add: trim_empty_iff)
  with a show "fst (handleSubmit E u1 u2 answer s) =
          Some (map (\<lambda>m. (role m, content m)) (filter (\<lambda>m. skipContext m \<noteq> Some True) (messages s))
                @ [(User, trim (inputValue s))])"
    by (simp add: handleSubmit_def handleSubmit_closure_def Let_def request_messages_def userMessage_def)
  assume "u1 \<noteq> u2"
  from user_message_kept[OF t _ this, of E answer] a
  show "messages (snd (handleSubmit E u1 u2 answer s)) ! length (messages s)
               = \<lparr>msg_id = u1, role = User, content = trim (inputValue s), skipContext = None\<rparr>"
    by (simp add: userMessage_def)
next
  show "\<exists>l r. inputValue s = l @ trim (inputValue s) @ r
          \<and> (\<forall>c\<in>set l. is_space c) \<and> (\<forall>c\<in>set r. is_space c)"
    by (rule trim_decompose)
next
  assume "trim (inputValue s) \<noteq> []"
  then show "\<not> is_space (hd (trim (inputValue s)))" "\<not> is_space (last (trim (inputValue s)))"
    using trim_ends by auto
qed

text \<open>
  A blank input, and the first submission of a session: the greeting is not sent.
\<close>

theorem submission_contract_witness:
  \<open>handleSubmit reference_engine ''u1'' ''u2'' FetchPending (initialApp\<lparr>inputValue := ''  ''\<rparr>)
      = (None, initialApp\<lparr>inputValue := ''  ''\<rparr>)
   \<and> fst (handleSubmit reference_engine ''u1'' ''u2''
        (Response True (Some (deliver [''data: {"event":"chunk","content":"Hello"}'' @ blank_line])))
        (initialApp\<lparr>inputValue := '' hi ''\<rparr>)) = Some [(User, ''hi'')]
   \<and> messages (snd (handleSubmit reference_engine ''u1'' ''u2''
        (Response True (Some (deliver [''data: {"event":"chunk","content":"Hello"}'' @ blank_line])))
        (initialApp\<lparr>inputValue := '' hi ''\<rparr>))) ! 1
      = \<lparr>msg_id = ''u1'', role = User, content = ''hi'', skipContext = None\<rparr>\<close>
proof -
  let ?blank = "initialApp\<lparr>inputValue := ''  ''\<rparr>"
  let ?s = "initialApp\<lparr>inputValue := '' hi ''\<rparr>"
  let ?answer = \<open>Response True (Some (deliver [''data: {"event":"chunk","content":"Hello"}'' @ blank_line]))\<close>
  have b: "\<forall>c\<in>set (inputValue ?blank). is_space c" by (simp add: is_space_def)
  have n: "(\<exists>c\<in>set (inputValue ?s). \<not> is_space c) \<and> \<not> isStreaming ?s"
    by (simp add: is_space_def initialApp_def)
  have u: "''u1'' \<noteq> ''u2''" by simp
  have t: "trim (inputValue ?s) = ''hi''" by code_simp
  have m: "filter (\<lambda>m. skipContext m \<noteq> Some True) (messages ?s) = []"
    by (simp add: initialApp_def initialMessages_def)
  have len: "length (messages ?s) = 1" by (simp add: initialApp_def initialMessages_def)
  note B = submission_contract[of ?blank reference_engine "''u1''" "''u2''" FetchPending]
  note A = submission_contract[of ?s reference_engine "''u1''" "''u2''" ?answer]
  from B b have 1: "handleSubmit reference_engine ''u1'' ''u2'' FetchPending ?blank = (None, ?blank)"
    by blast
  from A n have 2: "fst (handleSubmit reference_engine ''u1'' ''u2'' ?answer ?s) =
          Some (map (\<lambda>m. (role m, content m)) (filter (\<lambda>m. skipContext m \<noteq> Some True) (messages ?s))
                @ [(User, trim (inputValue ?s))])" by blast
  from A n u have 3: "messages (snd (handleSubmit reference_engine ''u1'' ''u2'' ?answer ?s)) ! length (messages ?s)
               = \<lparr>msg_id = ''u1'', role = User, content = trim (inputValue ?s), skipContext = None\<rparr>"
    by blast
  from 1 2 3 show ?thesis by (simp only: t m len) simp
qed

section \<open>Frames without an applicable event\<close>

lemma read_loop_skip:
  assumes "js_split blank_line (buffer @ tx) = [frame, carry]" and "h frame st = (st, Inr False)"
  shows "read_loop h buffer (Read tx False # reads) st = read_loop h carry reads st"
  using assms by (simp add: Let_def)

text \<open>
  Claim C7. A frame whose payload has the event \<^verbatim>\<open>chunk\<close> and a content that is
  absent or not a string yields no event and no error: the interpreter returns false
  with the state unchanged, the loop goes on to the next read, and a session that has
  received only this frame is still streaming with its transcript as it was.
\<close>

theorem chunk_without_text_is_ignored:
  assumes "data_line frame = Some dataLine"
    and "JSON_parse E (strip_data_prefix dataLine) = Inr payload"
    and "property payload ''event'' = Some (JString ''chunk'')"
    and "\<forall>t. property payload ''content'' \<noteq> Some (JString t)"
  shows "processEvent E frame app st = (st, Inr False)
       \<and> (js_split blank_line (buffer @ tx) = [frame, carry] \<longrightarrow>
            read_loop (session_handler E aid) buffer (Read tx False # reads) ms
              = read_loop (session_handler E aid) carry reads ms)
       \<and> (trim (inputValue s) \<noteq> [] \<and> \<not> isStreaming s \<and> js_split blank_line tx = [frame, carry] \<longrightarrow>
            snd (handleSubmit E uid aid (Response True (Some [Read tx False])) s)
              = \<lparr>messages = messages s @ [userMessage uid (trim (inputValue s)), assistantMessage aid],
                 inputValue = [], isStreaming = True, errorMessage = None\<rparr>)"
proof (intro conjI impI)
  show "processEvent E frame app st = (st, Inr False)"
    by (rule processEvent_chunk_without_text[OF assms])
next
  have h: "\<And>x. session_handler E aid frame x = (x, Inr False)"
    by (simp add: session_handler_def processEvent_chunk_without_text[OF assms])
  {
    assume "js_split blank_line (buffer @ tx) = [frame, carry]"
    then show "read_loop (session_handler E aid) buffer (Read tx False # reads) ms
              = read_loop (session_handler E aid) carry reads ms"
      using h by (rule read_loop_skip)
  }
  assume a: "trim (inputValue s) \<noteq> [] \<and> \<not> isStreaming s \<and> js_split blank_line tx = [frame, carry]"
  let ?ms0 = "messages s @ [userMessage uid (trim (inputValue s)), assistantMessage aid]"
  from a have "js_split blank_line ([] @ tx) = [frame, carry]" by simp
  then have "read_loop (session_handler E aid) [] (Read tx False # []) ?ms0
      = read_loop (session_handler E aid) carry [] ?ms0"
    using h by (rule read_loop_skip)
  then have "read_loop (session_handler E aid) [] [Read tx False] ?ms0 = (?ms0, carry, Awaiting)"
    by simp
  with a show "snd (handleSubmit E uid aid (Response True (Some [Read tx False])) s)
              = \<lparr>messages = ?ms0, inputValue = [], isStreaming = True, errorMessage = None\<rparr>"
    by (intro handleSubmit_awaiting) auto
qed

text \<open>
  A chunk frame with the content \<^verbatim>\<open>null\<close>, and a session that receives a chunk frame
  without content.
\<close>

theorem chunk_without_text_is_ignored_witness:
  \<open>processEvent reference_engine ''data: {"event":"chunk","content":null}'' (appendChunk ''u2'')
      [assistantMessage ''u2''] = ([assistantMessage ''u2''], Inr False)
   \<and> snd (handleSubmit reference_engine ''u1'' ''u2''
        (Response True (Some [Read (''data: {"event":"chunk"}'' @ blank_line) False]))
        (initialApp\<lparr>inputValue := ''hi''\<rparr>))
      = \<lparr>messages = initialMessages @ [userMessage ''u1'' ''hi'', assistantMessage ''u2''],
         inputValue = [], isStreaming = True, errorMessage = None\<rparr>\<close>
proof -
  let ?f1 = \<open>''data: {"event":"chunk","content":null}''\<close>
  let ?p1 = "JObject [(''event'', JString ''chunk''), (''content'', JNull)]"
  have a1: "data_line ?f1 = Some ?f1" by code_simp
  have a2: "JSON_parse reference_engine (strip_data_prefix ?f1) = Inr ?p1" by code_simp
  have a3: "property ?p1 ''event'' = Some (JString ''chunk'')" by simp
  have a4: "\<forall>t. property ?p1 ''content'' \<noteq> Some (JString t)" by simp
  note A = chunk_without_text_is_ignored[OF a1 a2 a3 a4,
      where app = "appendChunk ''u2''" and st = "[assistantMessage ''u2'']"]
  let ?f2 = \<open>''data: {"event":"chunk"}''\<close>
  let ?p2 = "JObject [(''event'', JString ''chunk'')]"
  let ?s = "initialApp\<lparr>inputValue := ''hi''\<rparr>"
  have b1: "data_line ?f2 = Some ?f2" by code_simp
  have b2: "JSON_parse reference_engine (strip_data_prefix ?f2) = Inr ?p2" by code_simp
  have b3: "property ?p2 ''event'' = Some (JString ''chunk'')" by simp
  have b4: "\<forall>t. property ?p2 ''content'' \<noteq> Some (JString t)" by simp
  have b5: "trim (inputValue ?s) \<noteq> [] \<and> \<not> isStreaming ?s \<and> js_split blank_line (?f2 @ blank_line) = [?f2, []]"
    by code_simp
  have t: "trim (inputValue ?s) = ''hi''" by code_simp
  have m: "messages ?s = initialMessages" by (simp add: initialApp_def)
  note B = chunk_without_text_is_ignored[OF b1 b2 b3 b4,
      where tx = "?f2 @ blank_line" and carry = "[]" and s = ?s and uid = "''u1''" and aid = "''u2''"]
  note B' = B[THEN conjunct2, THEN conjunct2, THEN mp, OF b5]
  note A' = A[THEN conjunct1]
  from A' B' show ?thesis by (simp only: t m)
qed

section \<open>Frames that end the session\<close>

text \<open>
  Claim C2 on the code. A chunk frame that follows a \<^verbatim>\<open>done\<close> frame in the same read
  is applied to the transcript; delivered in a later read it is not.
\<close>

theorem chunk_applied_after_done:
  \<open>snd (handleSubmit reference_engine ''u1'' ''u2''
      (Response True (Some (deliver [''data: {"event":"done"}'' @ blank_line
                                       @ ''data: {"event":"chunk","content":"X"}'' @ blank_line])))
      (initialApp\<lparr>inputValue := ''hi''\<rparr>))
    = \<lparr>messages = initialMessages @ [userMessage ''u1'' ''hi'', (assistantMessage ''u2'')\<lparr>content := ''X''\<rparr>],
       inputValue = [], isStreaming = False, errorMessage = None\<rparr>
   \<and> snd (handleSubmit reference_engine ''u1'' ''u2''
      (Response True (Some (deliver [''data: {"event":"done"}'' @ blank_line,
                                      ''data: {"event":"chunk","content":"X"}'' @ blank_line])))
      (initialApp\<lparr>inputValue := ''hi''\<rparr>))
    = \<lparr>messages = initialMessages @ [userMessage ''u1'' ''hi'', assistantMessage ''u2''],
       inputValue = [], isStreaming = False, errorMessage = None\<rparr>\<close>
  by code_simp

section \<open>Error events\<close>






section \<open>Frames that do not follow the protocol\<close>




section \<open>Submitting while a session runs\<close>

text \<open>
  The guard of \<^verbatim>\<open>handleSubmit\<close> tests the \<^verbatim>\<open>isStreaming\<close> of the render that created the
  handler, whatever the state has become since.
\<close>

lemma guard_reads_the_closure:
  "isStreaming seen \<Longrightarrow> handleSubmit_closure E uuid1 uuid2 answer seen s = (None, s)"
  by (simp add: handleSubmit_closure_def)

text \<open>
  Claim C8 on the code. The handler of the first render is called twice. The first
  call starts a session: the state is streaming, with the two messages of the turn
  appended. The second call still reads \<^verbatim>\<open>isStreaming = false\<close> and the typed input from
  its render, so it appends a second pair of messages to the streaming state and
  sends a second request.
\<close>

theorem stale_closure_starts_second_session:
  \<open>snd (handleSubmit reference_engine ''u1'' ''u2'' FetchPending (initialApp\<lparr>inputValue := ''hi''\<rparr>))
    = \<lparr>messages = initialMessages @ [userMessage ''u1'' ''hi'', assistantMessage ''u2''],
       inputValue = [], isStreaming = True, errorMessage = None\<rparr>
   \<and> handleSubmit_closure reference_engine ''u3'' ''u4'' FetchPending
        (initialApp\<lparr>inputValue := ''hi''\<rparr>)
        \<lparr>messages = initialMessages @ [userMessage ''u1'' ''hi'', assistantMessage ''u2''],
         inputValue = [], isStreaming = True, errorMessage = None\<rparr>
    = (Some [(User, ''hi'')],
       \<lparr>messages = initialMessages @ [userMessage ''u1'' ''hi'', assistantMessage ''u2'',
                                      userMessage ''u3'' ''hi'', assistantMessage ''u4''],
        inputValue = [], isStreaming = True, errorMessage = None\<rparr>)\<close>
  by code_simp

end
